theory Spec2Isabelle
  imports Main "HOL-Library.AList"
begin

section \<open>The WebSocket manager of FinanceGPT Live (src/backend/api/websocket.py)\<close>

text \<open>
  The source has two classes: \<^verbatim>\<open>ConnectionManager\<close> (one client's connection) and
  \<^verbatim>\<open>WebSocketManager\<close> (all connections, the topic index, the offline queue and the
  counters). Both are modelled by records and every method by a function that takes
  the state and returns the new one.

  Conventions of the embedding.
  \<^item> A Python \<^verbatim>\<open>dict\<close> is an association list in insertion order
    (\<^const>\<open>map_of\<close> reads it, \<^const>\<open>AList.update\<close> assigns to a key and keeps its
    position, \<^const>\<open>AList.delete\<close> is \<^verbatim>\<open>del\<close>).
  \<^item> A Python \<^verbatim>\<open>set\<close> of strings is a list without repetitions; the order in
    which Python enumerates a set is not fixed, and the order of the list stands for
    whichever order the interpreter takes. Theorems that quantify over every state
    therefore cover every enumeration order.
  \<^item> A message (a \<^verbatim>\<open>dict\<close> that is serialised to JSON) is an association list
    from field names to values.
  \<^item> The transport is the environment. Each time the code reaches the transport the
    environment answers with what \<^verbatim>\<open>websocket.client_state\<close> reads and whether
    \<^verbatim>\<open>send_text(json.dumps(...))\<close> returns or raises an \<^verbatim>\<open>Exception\<close>; the answers
    are an arbitrary function of the number of the attempt. Every call of the
    connection's send primitive and of \<^verbatim>\<open>ping\<close> is appended to a trace. The third
    answer of \<^verbatim>\<open>send_text\<close>, a \<^verbatim>\<open>BaseException\<close> that is not an \<^verbatim>\<open>Exception\<close>
    (the cancellation of the task at the \<^verbatim>\<open>await\<close>), is in \<open>conn_send_or_raise\<close>,
    the send primitive with every outcome; the worlds on which the manager's methods
    are modelled do not give it.
  \<^item> The readings of the clock and the generated uuid are arguments.
  \<^item> Every method is one atomic step: the interleaving of coroutines at an
    \<^verbatim>\<open>await\<close> is outside the embedding.
\<close>

subsection \<open>Data\<close>

datatype jvalue = JStr string | JDict "(string \<times> jvalue) list"

type_synonym message = "(string \<times> jvalue) list"

datatype chan_obs = ChanObs (state_connected: bool) (send_text_ok: bool)

datatype send_result = Skipped | NotConnected | SendFailed | Delivered

datatype event = SendCall string message send_result | PingCall string bool

record world =
  chan :: "nat \<Rightarrow> chan_obs"
  attempts :: nat
  trace :: "event list"

record connection =
  websocket :: nat
  client_id :: string
  conn_subscriptions :: "string set"
  last_ping :: string
  is_active :: bool

record ws_stats =
  total_connections :: int
  stats_active_connections :: int
  messages_sent :: int
  failed_sends :: int

record manager =
  active_connections :: "(string \<times> connection) list"
  subscriptions :: "(string \<times> string list) list"
  message_queue :: "(string \<times> message list) list"
  stats :: ws_stats

text \<open>\<^verbatim>\<open>s.add(x)\<close> and \<^verbatim>\<open>s.discard(x)\<close> on a set.\<close>

definition set_add :: "string \<Rightarrow> string list \<Rightarrow> string list" where
  "set_add x xs = (if x \<in> set xs then xs else xs @ [x])"

definition set_discard :: "string \<Rightarrow> string list \<Rightarrow> string list" where
  "set_discard x xs = removeAll x xs"

subsection \<open>ConnectionManager\<close>

definition ConnectionManager_init :: "nat \<Rightarrow> string \<Rightarrow> string \<Rightarrow> connection" where
  "ConnectionManager_init ws cid tnow =
     \<lparr>websocket = ws, client_id = cid, conn_subscriptions = {}, last_ping = tnow,
      is_active = True\<rparr>"

definition observe :: "world \<Rightarrow> chan_obs" where
  "observe w = chan w (attempts w)"

definition record_event :: "event \<Rightarrow> world \<Rightarrow> world" where
  "record_event e w = w\<lparr>trace := trace w @ [e]\<rparr>"

definition touch :: "event \<Rightarrow> world \<Rightarrow> world" where
  "touch e w = w\<lparr>attempts := Suc (attempts w), trace := trace w @ [e]\<rparr>"

text \<open>
  \<^verbatim>\<open>ConnectionManager.send_personal_message\<close> (lines 27-45) with every outcome. The
  arguments are what \<^verbatim>\<open>websocket.client_state\<close> reads and what
  \<^verbatim>\<open>send_text(json.dumps(message))\<close> does: it returns, it raises an
  \<^verbatim>\<open>Exception\<close>, or it raises a \<^verbatim>\<open>BaseException\<close> that is not an
  \<^verbatim>\<open>Exception\<close> (\<^verbatim>\<open>asyncio.CancelledError\<close>, \<^verbatim>\<open>KeyboardInterrupt\<close>). The
  method returns at line 30 when the flag is down, at line 38 when the channel is not
  in the connected state, at line 41 after \<^verbatim>\<open>send_text\<close>, and at line 45 from the
  handler of \<^verbatim>\<open>except Exception\<close>. That handler does not catch the third outcome:
  the exception leaves the method (the result \<open>None\<close>) and the flag is not written.
\<close>

datatype send_text_outcome = TextReturns | TextRaisesException | TextRaisesBaseException

definition conn_send_or_raise ::
    "connection \<Rightarrow> bool \<Rightarrow> send_text_outcome \<Rightarrow> bool option \<times> connection" where
  "conn_send_or_raise c connected text =
     (if \<not> is_active c then (Some False, c)
      else if \<not> connected then (Some False, c\<lparr>is_active := False\<rparr>)
      else (case text of
              TextReturns \<Rightarrow> (Some True, c)
            | TextRaisesException \<Rightarrow> (Some False, c\<lparr>is_active := False\<rparr>)
            | TextRaisesBaseException \<Rightarrow> (None, c)))"

text \<open>
  The same method on the worlds of this embedding, whose transport returns or raises
  an \<^verbatim>\<open>Exception\<close> (\<open>chan_obs\<close> has no third answer), with the trace and the
  count of attempts: on these answers it is \<open>conn_send_or_raise\<close> (lemma
  \<open>conn_send_agrees\<close> below) and every call returns.
\<close>

definition conn_send_personal_message ::
    "connection \<Rightarrow> message \<Rightarrow> world \<Rightarrow> bool \<times> connection \<times> world" where
  "conn_send_personal_message c msg w =
     (if \<not> is_active c then (False, c, record_event (SendCall (client_id c) msg Skipped) w)
      else if \<not> state_connected (observe w)
        then (False, c\<lparr>is_active := False\<rparr>, touch (SendCall (client_id c) msg NotConnected) w)
      else if send_text_ok (observe w)
        then (True, c, touch (SendCall (client_id c) msg Delivered) w)
      else (False, c\<lparr>is_active := False\<rparr>, touch (SendCall (client_id c) msg SendFailed) w))"

text \<open>
  \<^verbatim>\<open>ConnectionManager.ping\<close> (lines 47-58); it checks neither the flag nor the state.
  Its handler is a bare \<^verbatim>\<open>except:\<close>, which catches every exception, so for
  \<^verbatim>\<open>ping\<close> a \<open>send_text_ok\<close> that is false stands for any exception and every call
  returns.
\<close>

definition ping :: "connection \<Rightarrow> string \<Rightarrow> world \<Rightarrow> bool \<times> connection \<times> world" where
  "ping c tnow w =
     (if send_text_ok (observe w)
        then (True, c\<lparr>last_ping := tnow\<rparr>, touch (PingCall (client_id c) True) w)
      else (False, c\<lparr>is_active := False\<rparr>, touch (PingCall (client_id c) False) w))"

subsection \<open>WebSocketManager\<close>

definition WebSocketManager_init :: manager where
  "WebSocketManager_init =
     \<lparr>active_connections = [], subscriptions = [], message_queue = [],
      stats = \<lparr>total_connections = 0, stats_active_connections = 0, messages_sent = 0,
               failed_sends = 0\<rparr>\<rparr>"

text \<open>
  \<^verbatim>\<open>disconnect\<close> (lines 140-154). The loop runs over a snapshot of the topic names and
  reads \<^verbatim>\<open>self.subscriptions[topic]\<close>; an iteration deletes at most its own topic, so
  the lookup finds the topic (lemma \<open>disconnect_topics_lookup\<close> below) and the
  \<open>None\<close> branch is never taken.
\<close>

definition discard_from_topic ::
    "string \<Rightarrow> string \<Rightarrow> (string \<times> string list) list \<Rightarrow> (string \<times> string list) list" where
  "discard_from_topic cid topic subs =
     (case map_of subs topic of
        None \<Rightarrow> subs
      | Some members \<Rightarrow>
          if cid \<in> set members
          then (if set_discard cid members = [] then AList.delete topic subs
                else AList.update topic (set_discard cid members) subs)
          else subs)"

fun disconnect_topics ::
    "string \<Rightarrow> string list \<Rightarrow> (string \<times> string list) list \<Rightarrow> (string \<times> string list) list" where
  "disconnect_topics cid [] subs = subs"
| "disconnect_topics cid (topic # topics) subs =
     disconnect_topics cid topics (discard_from_topic cid topic subs)"

definition disconnect :: "string \<Rightarrow> manager \<Rightarrow> manager" where
  "disconnect cid m =
     (if map_of (active_connections m) cid \<noteq> None
      then (let subs = disconnect_topics cid (map fst (subscriptions m)) (subscriptions m);
                conns = AList.delete cid (active_connections m)
            in m\<lparr>subscriptions := subs, active_connections := conns,
                 stats := (stats m)\<lparr>stats_active_connections := int (length conns)\<rparr>\<rparr>)
      else m)"

fun disconnect_each :: "string list \<Rightarrow> manager \<Rightarrow> manager" where
  "disconnect_each [] m = m"
| "disconnect_each (cid # cids) m = disconnect_each cids (disconnect cid m)"

text \<open>The messages the manager builds itself (lines 124-129 and 165-169).\<close>

definition rocket :: string where
  "rocket = [CHR 0xF0, CHR 0x9F, CHR 0x9A, CHR 0x80]"

definition welcome_message :: "string \<Rightarrow> string \<Rightarrow> message" where
  "welcome_message cid tnow =
     [(''type'', JStr ''connection_established''), (''client_id'', JStr cid),
      (''timestamp'', JStr tnow),
      (''message'', JStr (rocket @ '' Connected to FinanceGPT Live!''))]"

definition confirmation_message :: "string \<Rightarrow> string \<Rightarrow> message" where
  "confirmation_message topic tnow =
     [(''type'', JStr ''subscription_confirmed''), (''topic'', JStr topic),
      (''timestamp'', JStr tnow)]"

text \<open>The loop of lines 133-134: every queued message goes to the connection's send.\<close>

fun flush_queue :: "message list \<Rightarrow> connection \<times> world \<Rightarrow> connection \<times> world" where
  "flush_queue [] cw = cw"
| "flush_queue (msg # msgs) (c, w) =
     (case conn_send_personal_message c msg w of (ok, c', w') \<Rightarrow> flush_queue msgs (c', w'))"

text \<open>
  \<^verbatim>\<open>connect\<close> (lines 101-138). \<open>accept_ok\<close> says whether \<^verbatim>\<open>websocket.accept()\<close>
  returns; when it raises, the exception leaves \<^verbatim>\<open>connect\<close> before any state is
  touched and the result is \<open>None\<close>. \<open>uuid\<close> is what \<^verbatim>\<open>str(uuid.uuid4())\<close> gives;
  \<^verbatim>\<open>not client_id\<close> holds for \<^verbatim>\<open>None\<close> and for the empty string.
\<close>

definition assigned_id :: "string option \<Rightarrow> string \<Rightarrow> string" where
  "assigned_id cid_opt uuid =
     (case cid_opt of None \<Rightarrow> uuid | Some s \<Rightarrow> if s = [] then uuid else s)"

fun connect ::
    "nat \<Rightarrow> string option \<Rightarrow> string \<Rightarrow> string \<Rightarrow> bool \<Rightarrow> manager \<times> world
       \<Rightarrow> string option \<times> manager \<times> world" where
  "connect ws cid_opt uuid tnow accept_ok (m, w) =
     (if \<not> accept_ok then (None, m, w)
      else
        let cid = assigned_id cid_opt uuid;
            connection = ConnectionManager_init ws cid tnow;
            conns = AList.update cid connection (active_connections m);
            st = (stats m)\<lparr>total_connections := total_connections (stats m) + 1,
                           stats_active_connections := int (length conns)\<rparr>
        in (case conn_send_personal_message connection (welcome_message cid tnow) w of
              (ok, c1, w1) \<Rightarrow>
                (case map_of (message_queue m) cid of
                   None \<Rightarrow>
                     (Some cid,
                      m\<lparr>active_connections := AList.update cid c1 conns, stats := st\<rparr>, w1)
                 | Some queued \<Rightarrow>
                     (case flush_queue queued (c1, w1) of
                        (c2, w2) \<Rightarrow>
                          (Some cid,
                           m\<lparr>active_connections := AList.update cid c2 conns,
                             message_queue := AList.delete cid (message_queue m),
                             stats := st\<rparr>, w2)))))"

text \<open>Updates of one component of the manager that several methods share.\<close>

definition count_sent :: "manager \<Rightarrow> manager" where
  "count_sent m = m\<lparr>stats := (stats m)\<lparr>messages_sent := messages_sent (stats m) + 1\<rparr>\<rparr>"

definition count_failed :: "manager \<Rightarrow> manager" where
  "count_failed m = m\<lparr>stats := (stats m)\<lparr>failed_sends := failed_sends (stats m) + 1\<rparr>\<rparr>"

definition store_connection :: "string \<Rightarrow> connection \<Rightarrow> manager \<Rightarrow> manager" where
  "store_connection cid c m = m\<lparr>active_connections := AList.update cid c (active_connections m)\<rparr>"

text \<open>\<^verbatim>\<open>subscribe\<close> (lines 156-171) and \<^verbatim>\<open>unsubscribe\<close> (lines 173-180).\<close>

definition add_subscriber ::
    "string \<Rightarrow> string \<Rightarrow> (string \<times> string list) list \<Rightarrow> (string \<times> string list) list" where
  "add_subscriber cid topic subs =
     (let subs1 = (if map_of subs topic = None then AList.update topic [] subs else subs)
      in (case map_of subs1 topic of
           None \<Rightarrow> subs1
          | Some members \<Rightarrow> AList.update topic (set_add cid members) subs1))"

fun subscribe :: "string \<Rightarrow> string \<Rightarrow> string \<Rightarrow> manager \<times> world \<Rightarrow> manager \<times> world" where
  "subscribe cid topic tnow (m, w) =
     (let m1 = m\<lparr>subscriptions := add_subscriber cid topic (subscriptions m)\<rparr>
      in (case map_of (active_connections m1) cid of
            None \<Rightarrow> (m1, w)
          | Some connection \<Rightarrow>
              (case conn_send_personal_message connection (confirmation_message topic tnow) w of
                 (ok, c', w') \<Rightarrow> (store_connection cid c' m1, w'))))"

definition unsubscribe :: "string \<Rightarrow> string \<Rightarrow> manager \<Rightarrow> manager" where
  "unsubscribe cid topic m =
     (case map_of (subscriptions m) topic of
        None \<Rightarrow> m
      | Some members \<Rightarrow>
          if set_discard cid members = []
          then m\<lparr>subscriptions := AList.delete topic (subscriptions m)\<rparr>
          else m\<lparr>subscriptions := AList.update topic (set_discard cid members) (subscriptions m)\<rparr>)"

text \<open>\<^verbatim>\<open>send_personal_message\<close> of the manager (lines 182-201).\<close>

definition enqueue :: "string \<Rightarrow> message \<Rightarrow> manager \<Rightarrow> manager" where
  "enqueue cid msg m =
     (let q1 = (if map_of (message_queue m) cid = None
                then AList.update cid [] (message_queue m) else message_queue m)
      in (case map_of q1 cid of
           None \<Rightarrow> m\<lparr>message_queue := q1\<rparr>
          | Some msgs \<Rightarrow> m\<lparr>message_queue := AList.update cid (msgs @ [msg]) q1\<rparr>))"

fun send_personal_message ::
    "string \<Rightarrow> message \<Rightarrow> manager \<times> world \<Rightarrow> manager \<times> world" where
  "send_personal_message cid msg (m, w) =
     (case map_of (active_connections m) cid of
        Some connection \<Rightarrow>
          if is_active connection
          then (case conn_send_personal_message connection msg w of
                  (success, c', w') \<Rightarrow>
                    if success then (count_sent (store_connection cid c' m), w')
                    else (count_failed (disconnect cid (store_connection cid c' m)), w'))
          else (disconnect cid m, w)
      | None \<Rightarrow> (enqueue cid msg m, w))"

text \<open>
  \<^verbatim>\<open>broadcast_to_topic\<close> (lines 203-226). \<open>stamp\<close> is line 208,
  \<open>topic_step\<close> the body of the loop of lines 211-222 for one subscriber, with the
  list of clients to disconnect as third component.
\<close>

definition stamp :: "string \<Rightarrow> message \<Rightarrow> message" where
  "stamp tnow msg = AList.update ''timestamp'' (JStr tnow) msg"

definition send_step ::
    "string \<Rightarrow> connection \<Rightarrow> message \<Rightarrow> manager \<times> world \<times> string list
       \<Rightarrow> manager \<times> world \<times> string list" where
  "send_step cid connection msg acc =
     (case acc of (m, w, disconnected_clients) \<Rightarrow>
        if is_active connection
        then (case conn_send_personal_message connection msg w of
                (success, c', w') \<Rightarrow>
                  if success
                  then (count_sent (store_connection cid c' m), w', disconnected_clients)
                  else (count_failed (store_connection cid c' m), w',
                        disconnected_clients @ [cid]))
        else (m, w, disconnected_clients @ [cid]))"

definition topic_step ::
    "message \<Rightarrow> string \<Rightarrow> manager \<times> world \<times> string list \<Rightarrow> manager \<times> world \<times> string list" where
  "topic_step msg cid acc =
     (case map_of (active_connections (fst acc)) cid of
        None \<Rightarrow> acc
      | Some connection \<Rightarrow> send_step cid connection msg acc)"

fun fan_out ::
    "message \<Rightarrow> string list \<Rightarrow> manager \<times> world \<times> string list \<Rightarrow> manager \<times> world \<times> string list" where
  "fan_out msg [] acc = acc"
| "fan_out msg (cid # cids) acc = fan_out msg cids (topic_step msg cid acc)"

fun broadcast_to_topic ::
    "string \<Rightarrow> message \<Rightarrow> string \<Rightarrow> manager \<times> world \<Rightarrow> manager \<times> world" where
  "broadcast_to_topic topic msg tnow (m, w) =
     (case map_of (subscriptions m) topic of
        None \<Rightarrow> (m, w)
      | Some members \<Rightarrow>
          (case fan_out (stamp tnow msg) members (m, w, []) of
             (m1, w1, disconnected_clients) \<Rightarrow> (disconnect_each disconnected_clients m1, w1)))"

text \<open>
  \<^verbatim>\<open>broadcast_to_all\<close> (lines 228-246): the loop runs over a snapshot of the
  \<^verbatim>\<open>(client_id, connection)\<close> pairs of \<^verbatim>\<open>active_connections\<close>.
\<close>

fun fan_out_all ::
    "message \<Rightarrow> (string \<times> connection) list \<Rightarrow> manager \<times> world \<times> string list
       \<Rightarrow> manager \<times> world \<times> string list" where
  "fan_out_all msg [] acc = acc"
| "fan_out_all msg ((cid, connection) # items) acc =
     fan_out_all msg items (send_step cid connection msg acc)"

fun broadcast_to_all :: "message \<Rightarrow> string \<Rightarrow> manager \<times> world \<Rightarrow> manager \<times> world" where
  "broadcast_to_all msg tnow (m, w) =
     (case fan_out_all (stamp tnow msg) (active_connections m) (m, w, []) of
        (m1, w1, disconnected_clients) \<Rightarrow> (disconnect_each disconnected_clients m1, w1))"

text \<open>The three wrappers of lines 248-273.\<close>

definition envelope :: "string \<Rightarrow> (string \<times> jvalue) list \<Rightarrow> string \<Rightarrow> message" where
  "envelope ty data source =
     [(''type'', JStr ty), (''data'', JDict data), (''source'', JStr source)]"

definition broadcast_market_update ::
    "(string \<times> jvalue) list \<Rightarrow> string \<Rightarrow> manager \<times> world \<Rightarrow> manager \<times> world" where
  "broadcast_market_update data tnow mw =
     broadcast_to_topic ''market_data'' (envelope ''market_update'' data ''real_time_feed'') tnow mw"

definition broadcast_news_update ::
    "(string \<times> jvalue) list \<Rightarrow> string \<Rightarrow> manager \<times> world \<Rightarrow> manager \<times> world" where
  "broadcast_news_update data tnow mw =
     broadcast_to_topic ''news'' (envelope ''news_update'' data ''news_feed'') tnow mw"

definition broadcast_ai_signal ::
    "(string \<times> jvalue) list \<Rightarrow> string \<Rightarrow> manager \<times> world \<Rightarrow> manager \<times> world" where
  "broadcast_ai_signal data tnow mw =
     broadcast_to_topic ''signals'' (envelope ''ai_signal'' data ''ai_agents'') tnow mw"

text \<open>
  One pass of the body of \<^verbatim>\<open>_health_check_loop\<close> (lines 290-296): every connection of
  the snapshot is pinged, the ones whose ping fails are disconnected afterwards.
\<close>

fun ping_all ::
    "string \<Rightarrow> (string \<times> connection) list \<Rightarrow> manager \<times> world \<times> string list
       \<Rightarrow> manager \<times> world \<times> string list" where
  "ping_all tnow [] acc = acc"
| "ping_all tnow ((cid, connection) # items) (m, w, disconnected) =
     (case ping connection tnow w of
        (ok, c', w') \<Rightarrow>
          ping_all tnow items
            (store_connection cid c' m, w', if ok then disconnected else disconnected @ [cid]))"

fun health_check_pass :: "string \<Rightarrow> manager \<times> world \<Rightarrow> manager \<times> world" where
  "health_check_pass tnow (m, w) =
     (case ping_all tnow (active_connections m) (m, w, []) of
        (m1, w1, disconnected) \<Rightarrow> (disconnect_each disconnected m1, w1))"

text \<open>
  One pass of the body of \<^verbatim>\<open>_cleanup_loop\<close> (lines 309-313). \<^verbatim>\<open>messages[-100:]\<close> is
  the list without its first \<open>len - 100\<close> elements. The pass deletes no key, so the
  lookup of a key of the snapshot finds it (lemma \<open>cleanup_keys_lookup\<close> below).
\<close>

definition truncate_queue ::
    "string \<Rightarrow> (string \<times> message list) list \<Rightarrow> (string \<times> message list) list" where
  "truncate_queue cid q =
     (case map_of q cid of
        None \<Rightarrow> q
      | Some messages \<Rightarrow>
          if length messages > 100
          then AList.update cid (drop (length messages - 100) messages) q
          else q)"

fun cleanup_keys ::
    "string list \<Rightarrow> (string \<times> message list) list \<Rightarrow> (string \<times> message list) list" where
  "cleanup_keys [] q = q"
| "cleanup_keys (cid # cids) q = cleanup_keys cids (truncate_queue cid q)"

definition cleanup_pass :: "manager \<Rightarrow> manager" where
  "cleanup_pass m =
     m\<lparr>message_queue := cleanup_keys (map fst (message_queue m)) (message_queue m)\<rparr>"

subsection \<open>Sequences of operations\<close>

text \<open>
  One constructor per public method and per pass of a background loop, with the
  answers of the environment (uuid, clock, outcome of \<^verbatim>\<open>accept\<close>) as arguments.
\<close>

datatype op =
    Connect nat "string option" string string bool
  | Disconnect string
  | Subscribe string string string
  | Unsubscribe string string
  | SendPersonal string message
  | BroadcastTopic string message string
  | BroadcastAll message string
  | HealthCheck string
  | Cleanup

fun step :: "op \<Rightarrow> manager \<times> world \<Rightarrow> manager \<times> world" where
  "step (Connect ws cid_opt uuid tnow accept_ok) mw = snd (connect ws cid_opt uuid tnow accept_ok mw)"
| "step (Disconnect cid) (m, w) = (disconnect cid m, w)"
| "step (Subscribe cid topic tnow) mw = subscribe cid topic tnow mw"
| "step (Unsubscribe cid topic) (m, w) = (unsubscribe cid topic m, w)"
| "step (SendPersonal cid msg) mw = send_personal_message cid msg mw"
| "step (BroadcastTopic topic msg tnow) mw = broadcast_to_topic topic msg tnow mw"
| "step (BroadcastAll msg tnow) mw = broadcast_to_all msg tnow mw"
| "step (HealthCheck tnow) mw = health_check_pass tnow mw"
| "step Cleanup (m, w) = (cleanup_pass m, w)"

fun run :: "op list \<Rightarrow> manager \<times> world \<Rightarrow> manager \<times> world" where
  "run [] mw = mw"
| "run (x # xs) mw = run xs (step x mw)"

text \<open>Reading the state the way the claims do.\<close>

definition in_topic_index :: "manager \<Rightarrow> string \<Rightarrow> string \<Rightarrow> bool" where
  "in_topic_index m cid topic =
     (case map_of (subscriptions m) topic of None \<Rightarrow> False | Some members \<Rightarrow> cid \<in> set members)"

definition in_local_subscriptions :: "manager \<Rightarrow> string \<Rightarrow> string \<Rightarrow> bool" where
  "in_local_subscriptions m cid topic =
     (case map_of (active_connections m) cid of
        None \<Rightarrow> False
      | Some c \<Rightarrow> topic \<in> conn_subscriptions c)"

definition has_connection :: "manager \<Rightarrow> string \<Rightarrow> bool" where
  "has_connection m cid = (map_of (active_connections m) cid \<noteq> None)"

subsection \<open>Observations of states and traces\<close>

text \<open>
  What one pass of a loop leaves alone: the keys of the connections, the topic index,
  the offline queue and the two counters that only \<^verbatim>\<open>connect\<close> and
  \<^verbatim>\<open>disconnect\<close> write.
\<close>

definition same_frame :: "manager \<Rightarrow> manager \<Rightarrow> bool" where
  "same_frame m m' =
     (map fst (active_connections m') = map fst (active_connections m) \<and>
      subscriptions m' = subscriptions m \<and> message_queue m' = message_queue m \<and>
      stats_active_connections (stats m') = stats_active_connections (stats m) \<and>
      total_connections (stats m') = total_connections (stats m))"

text \<open>The counter of active connections agrees with the dict.\<close>

definition counted :: "manager \<Rightarrow> bool" where
  "counted m = (stats_active_connections (stats m) = int (length (active_connections m)))"

text \<open>The operation is a \<^verbatim>\<open>connect\<close> that returns and assigns the client id.\<close>

fun connects :: "op \<Rightarrow> string \<Rightarrow> bool" where
  "connects (Connect ws cid_opt uuid tnow accept_ok) cid =
     (accept_ok \<and> assigned_id cid_opt uuid = cid)"
| "connects x cid = False"

text \<open>The client has a connection with its flag up, and its send returns false.\<close>

definition active_send_fails :: "manager \<Rightarrow> string \<Rightarrow> message \<Rightarrow> world \<Rightarrow> bool" where
  "active_send_fails m cid msg w =
     (case map_of (active_connections m) cid of
        None \<Rightarrow> False
      | Some c \<Rightarrow> is_active c \<and> \<not> fst (conn_send_personal_message c msg w))"

text \<open>\<^verbatim>\<open>messages[-100:]\<close> where the cleanup pass applies it, the list itself elsewhere.\<close>

definition latest_100 :: "message list \<Rightarrow> message list" where
  "latest_100 messages =
     (if length messages > 100 then drop (length messages - 100) messages else messages)"

text \<open>An entry of the topic index after \<^verbatim>\<open>disconnect\<close> has visited its topic.\<close>

definition without :: "string \<Rightarrow> string list option \<Rightarrow> string list option" where
  "without cid entry =
     (case entry of
        None \<Rightarrow> None
      | Some members \<Rightarrow>
          if cid \<in> set members
          then (if removeAll cid members = [] then None else Some (removeAll cid members))
          else Some members)"

text \<open>Every client id in the topic index has a connection.\<close>

definition no_stale :: "manager \<Rightarrow> bool" where
  "no_stale m = (\<forall>c t. in_topic_index m c t \<longrightarrow> has_connection m c)"

text \<open>
  A sequence of operations in which every \<^verbatim>\<open>subscribe\<close> is for a client id that
  has a connection when the call is made.
\<close>

fun subscribes_known :: "op \<Rightarrow> manager \<Rightarrow> bool" where
  "subscribes_known (Subscribe cid topic tnow) m = has_connection m cid"
| "subscribes_known x m = True"

fun subscribes_live :: "op list \<Rightarrow> manager \<times> world \<Rightarrow> bool" where
  "subscribes_live [] mw = True"
| "subscribes_live (x # xs) mw = (subscribes_known x (fst mw) \<and> subscribes_live xs (step x mw))"

text \<open>
  From a trace: the calls of the send primitive (client id and message), the ones
  that were delivered, and whether a call for a client id did not deliver.
\<close>

fun sends_of :: "event list \<Rightarrow> (string \<times> message) list" where
  "sends_of [] = []"
| "sends_of (SendCall cid msg r # es) = (cid, msg) # sends_of es"
| "sends_of (PingCall cid ok # es) = sends_of es"

fun deliveries :: "event list \<Rightarrow> (string \<times> message) list" where
  "deliveries [] = []"
| "deliveries (SendCall cid msg r # es) =
     (if r = Delivered then (cid, msg) # deliveries es else deliveries es)"
| "deliveries (PingCall cid ok # es) = deliveries es"

fun failed_send :: "event list \<Rightarrow> string \<Rightarrow> bool" where
  "failed_send [] c = False"
| "failed_send (SendCall cid msg r # es) c = ((cid = c \<and> r \<noteq> Delivered) \<or> failed_send es c)"
| "failed_send (PingCall cid ok # es) c = failed_send es c"

text \<open>
  What the trace shows of a call that reaches the transport, and the calls that a pass
  makes for a list of clients when each of them reaches the transport in turn, the
  first one at attempt \<open>n\<close>.
\<close>

definition transport_result :: "chan_obs \<Rightarrow> send_result" where
  "transport_result obs =
     (if \<not> state_connected obs then NotConnected
      else if send_text_ok obs then Delivered else SendFailed)"

fun transport_calls :: "(nat \<Rightarrow> chan_obs) \<Rightarrow> nat \<Rightarrow> message \<Rightarrow> string list \<Rightarrow> event list" where
  "transport_calls ch n msg [] = []"
| "transport_calls ch n msg (c # cs) =
     SendCall c msg (transport_result (ch n)) # transport_calls ch (Suc n) msg cs"

text \<open>The messages waiting for a client id.\<close>

definition queued :: "manager \<Rightarrow> string \<Rightarrow> message list" where
  "queued m cid = (case map_of (message_queue m) cid of None \<Rightarrow> [] | Some msgs \<Rightarrow> msgs)"

text \<open>The client id has a connection with its flag up.\<close>

definition active_in :: "manager \<Rightarrow> string \<Rightarrow> bool" where
  "active_in m cid =
     (case map_of (active_connections m) cid of None \<Rightarrow> False | Some c \<Rightarrow> is_active c)"

text \<open>
  Every connection is stored under its own client id, and no subscriber list repeats
  a client id (it stands for a set).
\<close>

definition keys_match :: "manager \<Rightarrow> bool" where
  "keys_match m = list_all (\<lambda>(k, c). client_id c = k) (active_connections m)"

definition members_distinct :: "manager \<Rightarrow> bool" where
  "members_distinct m = (\<forall>t. pred_option distinct (map_of (subscriptions m) t))"

subsection \<open>Concrete states, transports and runs\<close>

text \<open>
  \<open>calm_world\<close> delivers every message; \<open>fail_once\<close> makes the first
  \<^verbatim>\<open>send_text\<close> raise and delivers the rest.
\<close>

definition calm_world :: world where
  "calm_world = \<lparr>chan = (\<lambda>n. ChanObs True True), attempts = 0, trace = []\<rparr>"

definition fail_once :: world where
  "fail_once = \<lparr>chan = (\<lambda>n. ChanObs True (n \<noteq> 0)), attempts = 0, trace = []\<rparr>"

definition demo_connection :: "string \<Rightarrow> bool \<Rightarrow> connection" where
  "demo_connection cid a = (ConnectionManager_init 0 cid ''t0'')\<lparr>is_active := a\<rparr>"

definition demo_manager :: manager where
  "demo_manager =
     \<lparr>active_connections =
        [(''alice'', demo_connection ''alice'' True), (''bob'', demo_connection ''bob'' False)],
      subscriptions = [(''news'', [''alice'', ''bob'']), (''signals'', [''bob''])],
      message_queue = [(''carol'', [[(''type'', JStr ''hello'')]])],
      stats = \<lparr>total_connections = 2, stats_active_connections = 2, messages_sent = 0,
               failed_sends = 0\<rparr>\<rparr>"

definition room_manager :: manager where
  "room_manager =
     \<lparr>active_connections =
        [(''ann'', demo_connection ''ann'' True), (''bob'', demo_connection ''bob'' False),
         (''cat'', demo_connection ''cat'' True)],
      subscriptions = [(''news'', [''ann'', ''bob'', ''cat'', ''dan'']), (''signals'', [''ann''])],
      message_queue = [],
      stats = \<lparr>total_connections = 3, stats_active_connections = 3, messages_sent = 0,
               failed_sends = 0\<rparr>\<rparr>"

definition numbered :: "nat \<Rightarrow> message" where
  "numbered n = [(''type'', JStr ''note''), (''seq'', JStr (replicate n CHR ''i''))]"

definition backlog_manager :: manager where
  "backlog_manager =
     WebSocketManager_init
       \<lparr>message_queue := [(''carol'', map numbered [0..<101]), (''dave'', map numbered [0..<3])]\<rparr>"

definition alice_subscribes :: "op list" where
  "alice_subscribes =
     [Connect 1 (Some ''alice'') ''uuid-1'' ''t0'' True, Subscribe ''alice'' ''news'' ''t1'']"

definition alice_session :: "op list" where
  "alice_session =
     [Connect 1 (Some ''alice'') ''uuid-1'' ''t0'' True, Subscribe ''alice'' ''news'' ''t1'',
      Connect 2 None ''uuid-2'' ''t2'' True, Subscribe ''uuid-2'' ''news'' ''t3'',
      BroadcastTopic ''news'' [] ''t4'', Disconnect ''uuid-2'']"

definition carol_offline :: "op list" where
  "carol_offline = map (SendPersonal ''carol'') [numbered 1, numbered 2] @
     [Connect 3 (Some ''carol'') ''uuid-3'' ''t5'' True]"

section \<open>Properties of disconnect\<close>

lemma disconnect_absent:
  "map_of (active_connections m) cid = None \<Longrightarrow> disconnect cid m = m"
  by (simp add: disconnect_def)

lemma disconnect_removes: "map_of (active_connections (disconnect cid m)) cid = None"
  by (simp add: disconnect_def Let_def delete_conv')

text \<open>
  Claim C8. \<^verbatim>\<open>disconnect\<close> is idempotent: calling it twice in a row for a client id
  gives the same manager state (connections, topic index, offline queue, counters) as
  calling it once, and for a client id that has no entry in the connections it leaves
  the whole state as it was.
\<close>

theorem disconnect_idempotent:
  "disconnect cid (disconnect cid m) = disconnect cid m \<and>
   (map_of (active_connections m) cid = None \<longrightarrow> disconnect cid m = m)"
  using disconnect_absent disconnect_removes by blast

theorem disconnect_idempotent_witness:
  "map_of (active_connections demo_manager) ''carol'' = None \<and>
   disconnect ''carol'' demo_manager = demo_manager \<and>
   disconnect ''bob'' (disconnect ''bob'' demo_manager) = disconnect ''bob'' demo_manager \<and>
   disconnect ''bob'' demo_manager \<noteq> demo_manager"
  using disconnect_idempotent [of "''carol''" demo_manager]
    disconnect_idempotent [of "''bob''" demo_manager]
  by (simp add: demo_manager_def disconnect_def)

text \<open>
  Claim C9. \<^verbatim>\<open>disconnect\<close> leaves the offline queue untouched: for every client id
  the mapping of queued messages is the same before and after the call, for that
  client and for every other.
\<close>

theorem disconnect_keeps_message_queue:
  "message_queue (disconnect cid m) = message_queue m"
  by (simp add: disconnect_def Let_def)

section \<open>Basic facts about the operations\<close>

text \<open>What the send primitive and \<^verbatim>\<open>ping\<close> do to the connection.\<close>

lemma conn_send_conn:
  "conn_send_personal_message c msg w = (ok, c', w') \<Longrightarrow>
     (ok \<and> c' = c \<and> is_active c) \<or> (\<not> ok \<and> c' = c\<lparr>is_active := False\<rparr>)"
  by (auto simp: conn_send_personal_message_def split: if_splits)

lemma conn_send_agrees:
  "conn_send_or_raise c (state_connected (observe w))
     (if send_text_ok (observe w) then TextReturns else TextRaisesException) =
   (Some (fst (conn_send_personal_message c msg w)),
    fst (snd (conn_send_personal_message c msg w)))"
  by (simp add: conn_send_or_raise_def conn_send_personal_message_def)

lemma conn_send_active:
  "is_active c \<Longrightarrow>
   snd (snd (conn_send_personal_message c msg w)) =
     touch (SendCall (client_id c) msg (transport_result (observe w))) w"
  by (simp add: conn_send_personal_message_def transport_result_def)

lemma ping_conn:
  "ping c tnow w = (ok, c', w') \<Longrightarrow>
     (ok \<and> c' = c\<lparr>last_ping := tnow\<rparr>) \<or> (\<not> ok \<and> c' = c\<lparr>is_active := False\<rparr>)"
  by (auto simp: ping_def split: if_splits)

lemma set_update_subset: "set (AList.update k v al) \<subseteq> insert (k, v) (set al)"
  by (induction al) auto

lemma set_delete_subset: "set (AList.delete k al) \<subseteq> set al"
  by (auto simp: AList.delete_eq)

lemma active_connections_simps [simp]:
  "active_connections (store_connection cid c m) = AList.update cid c (active_connections m)"
  "active_connections (count_sent m) = active_connections m"
  "active_connections (count_failed m) = active_connections m"
  "active_connections (enqueue cid msg m) = active_connections m"
  "active_connections (unsubscribe cid topic m) = active_connections m"
  "active_connections (cleanup_pass m) = active_connections m"
  by (simp_all add: store_connection_def count_sent_def count_failed_def enqueue_def Let_def
      unsubscribe_def cleanup_pass_def split: option.splits)

lemma subscriptions_simps [simp]:
  "subscriptions (store_connection cid c m) = subscriptions m"
  "subscriptions (count_sent m) = subscriptions m"
  "subscriptions (count_failed m) = subscriptions m"
  "subscriptions (enqueue cid msg m) = subscriptions m"
  "subscriptions (cleanup_pass m) = subscriptions m"
  by (simp_all add: store_connection_def count_sent_def count_failed_def enqueue_def Let_def
      cleanup_pass_def split: option.splits)

lemma message_queue_simps [simp]:
  "message_queue (store_connection cid c m) = message_queue m"
  "message_queue (count_sent m) = message_queue m"
  "message_queue (count_failed m) = message_queue m"
  "message_queue (unsubscribe cid topic m) = message_queue m"
  by (simp_all add: store_connection_def count_sent_def count_failed_def unsubscribe_def
      split: option.splits)

lemma stats_simps [simp]:
  "stats (store_connection cid c m) = stats m"
  "stats (enqueue cid msg m) = stats m"
  "stats (unsubscribe cid topic m) = stats m"
  "stats (cleanup_pass m) = stats m"
  "stats (count_sent m) = (stats m)\<lparr>messages_sent := messages_sent (stats m) + 1\<rparr>"
  "stats (count_failed m) = (stats m)\<lparr>failed_sends := failed_sends (stats m) + 1\<rparr>"
  by (simp_all add: store_connection_def count_sent_def count_failed_def enqueue_def Let_def
      unsubscribe_def cleanup_pass_def split: option.splits)

section \<open>A property of every stored connection\<close>

text \<open>
  A property \<open>Q\<close> of the pairs of \<^verbatim>\<open>active_connections\<close> that lowering the flag
  preserves is preserved by every loop of the manager.
\<close>

lemma entries_store:
  "\<forall>(k, c) \<in> set (active_connections m). Q k c \<Longrightarrow> Q cid c' \<Longrightarrow>
   \<forall>(k, c) \<in> set (active_connections (store_connection cid c' m)). Q k c"
  using set_update_subset [of cid c' "active_connections m"] by auto

lemma entries_disconnect:
  "\<forall>(k, c) \<in> set (active_connections m). Q k c \<Longrightarrow>
   \<forall>(k, c) \<in> set (active_connections (disconnect cid m)). Q k c"
  using set_delete_subset [of cid "active_connections m"]
  by (auto simp: disconnect_def Let_def)

lemma entries_disconnect_each:
  "\<forall>(k, c) \<in> set (active_connections m). Q k c \<Longrightarrow>
   \<forall>(k, c) \<in> set (active_connections (disconnect_each cids m)). Q k c"
proof (induction cids arbitrary: m)
  case Nil
  then show ?case by simp
next
  case (Cons cid cids)
  from Cons.IH [OF entries_disconnect [OF Cons.prems]] show ?case by simp
qed

lemma entries_send_step:
  assumes down: "\<And>k c. Q k c \<Longrightarrow> Q k (c\<lparr>is_active := False\<rparr>)"
    and inv: "\<forall>(k, c) \<in> set (active_connections m). Q k c"
    and c: "Q cid connection"
  shows "\<forall>(k, c) \<in> set (active_connections (fst (send_step cid connection msg (m, w, d)))). Q k c"
proof (cases "is_active connection")
  case False
  then show ?thesis using inv by (simp add: send_step_def)
next
  case True
  obtain ok c' w' where r: "conn_send_personal_message connection msg w = (ok, c', w')"
    by (cases "conn_send_personal_message connection msg w") auto
  from conn_send_conn [OF r] c down have "Q cid c'" by auto
  from entries_store [OF inv this] show ?thesis
    using True r by (simp add: send_step_def)
qed

lemma map_of_entry: "map_of al k = Some v \<Longrightarrow> (k, v) \<in> set al"
  by (rule map_of_SomeD)

lemma entries_topic_step:
  assumes down: "\<And>k c. Q k c \<Longrightarrow> Q k (c\<lparr>is_active := False\<rparr>)"
    and inv: "\<forall>(k, c) \<in> set (active_connections (fst acc)). Q k c"
  shows "\<forall>(k, c) \<in> set (active_connections (fst (topic_step msg cid acc))). Q k c"
proof (cases "map_of (active_connections (fst acc)) cid")
  case None
  then show ?thesis using inv by (simp add: topic_step_def)
next
  case (Some connection)
  obtain m w d where acc: "acc = (m, w, d)" by (cases acc) auto
  from Some inv acc have "Q cid connection" by (auto dest: map_of_SomeD)
  from entries_send_step [of Q m cid connection msg w d, OF down _ this] inv acc Some
  show ?thesis by (simp add: topic_step_def)
qed

lemma entries_fan_out:
  assumes down: "\<And>k c. Q k c \<Longrightarrow> Q k (c\<lparr>is_active := False\<rparr>)"
  shows "\<forall>(k, c) \<in> set (active_connections (fst acc)). Q k c \<Longrightarrow>
    \<forall>(k, c) \<in> set (active_connections (fst (fan_out msg cids acc))). Q k c"
proof (induction cids arbitrary: acc)
  case Nil
  then show ?case by simp
next
  case (Cons cid cids)
  from entries_topic_step [of Q acc msg cid, OF down Cons.prems] Cons.IH
  show ?case by simp
qed

lemma entries_fan_out_all:
  assumes down: "\<And>k c. Q k c \<Longrightarrow> Q k (c\<lparr>is_active := False\<rparr>)"
  shows "\<forall>(k, c) \<in> set (active_connections (fst acc)). Q k c \<Longrightarrow>
    \<forall>(k, c) \<in> set items. Q k c \<Longrightarrow>
    \<forall>(k, c) \<in> set (active_connections (fst (fan_out_all msg items acc))). Q k c"
proof (induction items arbitrary: acc)
  case Nil
  then show ?case by simp
next
  case (Cons item items)
  obtain cid connection where item: "item = (cid, connection)" by (cases item) auto
  obtain m w d where acc: "acc = (m, w, d)" by (cases acc) auto
  from Cons.prems item have q: "Q cid connection" by simp
  from entries_send_step [of Q m cid connection msg w d, OF down _ q] Cons.prems(1) acc
  have "\<forall>(k, c) \<in> set (active_connections (fst (send_step cid connection msg acc))). Q k c"
    by simp
  from Cons.IH [OF this] Cons.prems(2) item show ?case by simp
qed

lemma entries_ping_all:
  assumes down: "\<And>k c. Q k c \<Longrightarrow> Q k (c\<lparr>is_active := False\<rparr>)"
    and pinged: "\<And>k c t. Q k c \<Longrightarrow> Q k (c\<lparr>last_ping := t\<rparr>)"
  shows "\<forall>(k, c) \<in> set (active_connections (fst acc)). Q k c \<Longrightarrow>
    \<forall>(k, c) \<in> set items. Q k c \<Longrightarrow>
    \<forall>(k, c) \<in> set (active_connections (fst (ping_all tnow items acc))). Q k c"
proof (induction items arbitrary: acc)
  case Nil
  then show ?case by simp
next
  case (Cons item items)
  obtain cid connection where item: "item = (cid, connection)" by (cases item) auto
  obtain m w d where acc: "acc = (m, w, d)" by (cases acc) auto
  obtain ok c' w' where r: "ping connection tnow w = (ok, c', w')"
    by (cases "ping connection tnow w") auto
  from Cons.prems item have q: "Q cid connection" by simp
  from ping_conn [OF r] q down pinged have "Q cid c'" by auto
  from entries_store [of m Q cid c'] this Cons.prems(1) acc
  have "\<forall>(k, c) \<in> set (active_connections (fst (store_connection cid c' m, w',
           if ok then d else d @ [cid]))). Q k c"
    by simp
  from Cons.IH [OF this] Cons.prems(2) item acc r show ?case by simp
qed

lemma entries_flush_queue:
  assumes down: "\<And>c. P c \<Longrightarrow> P (c\<lparr>is_active := False\<rparr>)"
  shows "P c \<Longrightarrow> P (fst (flush_queue msgs (c, w)))"
proof (induction msgs arbitrary: c w)
  case Nil
  then show ?case by simp
next
  case (Cons msg msgs)
  obtain ok c' w' where r: "conn_send_personal_message c msg w = (ok, c', w')"
    by (cases "conn_send_personal_message c msg w") auto
  from conn_send_conn [OF r] Cons.prems down have "P c'" by auto
  from Cons.IH [OF this] r show ?case by simp
qed

section \<open>What a pass over the connections leaves alone\<close>

lemma same_frame_refl [simp]: "same_frame m m"
  by (simp add: same_frame_def)

lemma same_frame_trans: "same_frame a b \<Longrightarrow> same_frame b c \<Longrightarrow> same_frame a c"
  by (simp add: same_frame_def)

lemma keys_update_present:
  "k \<in> set (map fst al) \<Longrightarrow> map fst (AList.update k v al) = map fst al"
  by (simp add: update_keys)

lemma same_frame_store:
  "cid \<in> set (map fst (active_connections m)) \<Longrightarrow> same_frame m (store_connection cid c m)"
  by (simp add: same_frame_def update_keys)

lemma same_frame_count [simp]:
  "same_frame m (count_sent m')  = same_frame m m'"
  "same_frame m (count_failed m')  = same_frame m m'"
  by (simp_all add: same_frame_def)

lemma same_frame_send_step:
  assumes "cid \<in> set (map fst (active_connections m))"
  shows "same_frame m (fst (send_step cid connection msg (m, w, d)))"
proof (cases "conn_send_personal_message connection msg w")
  case (fields ok c' w')
  with same_frame_store [OF assms] show ?thesis
    by (simp add: send_step_def)
qed

lemma same_frame_topic_step: "same_frame (fst acc) (fst (topic_step msg cid acc))"
proof (cases "map_of (active_connections (fst acc)) cid")
  case None
  then show ?thesis by (simp add: topic_step_def)
next
  case (Some connection)
  obtain m w d where acc: "acc = (m, w, d)" by (cases acc) auto
  from Some acc have "cid \<in> set (map fst (active_connections m))"
    by (auto dest: map_of_SomeD intro: rev_image_eqI)
  from same_frame_send_step [OF this] Some acc show ?thesis
    by (simp add: topic_step_def)
qed

lemma same_frame_fan_out: "same_frame (fst acc) (fst (fan_out msg cids acc))"
proof (induction cids arbitrary: acc)
  case Nil
  show ?case by simp
next
  case (Cons cid cids)
  from same_frame_trans [OF same_frame_topic_step Cons.IH] show ?case by simp
qed

lemma same_frame_keys:
  "same_frame m m' \<Longrightarrow> set (map fst (active_connections m')) = set (map fst (active_connections m))"
  by (simp add: same_frame_def)

lemma same_frame_fan_out_all:
  "fst ` set items \<subseteq> set (map fst (active_connections (fst acc))) \<Longrightarrow>
   same_frame (fst acc) (fst (fan_out_all msg items acc))"
proof (induction items arbitrary: acc)
  case Nil
  show ?case by simp
next
  case (Cons item items)
  obtain cid connection where item: "item = (cid, connection)" by (cases item) auto
  obtain m w d where acc: "acc = (m, w, d)" by (cases acc) auto
  from Cons.prems item acc have "cid \<in> set (map fst (active_connections m))" by auto
  from same_frame_send_step [OF this]
  have sf: "same_frame (fst acc) (fst (send_step cid connection msg acc))"
    using acc by simp
  from Cons.prems item same_frame_keys [OF sf]
  have "fst ` set items \<subseteq> set (map fst (active_connections (fst (send_step cid connection msg acc))))"
    by auto
  from same_frame_trans [OF sf Cons.IH [OF this]] item show ?case by simp
qed

lemma same_frame_ping_all:
  "fst ` set items \<subseteq> set (map fst (active_connections (fst acc))) \<Longrightarrow>
   same_frame (fst acc) (fst (ping_all tnow items acc))"
proof (induction items arbitrary: acc)
  case Nil
  show ?case by simp
next
  case (Cons item items)
  obtain cid connection where item: "item = (cid, connection)" by (cases item) auto
  obtain m w d where acc: "acc = (m, w, d)" by (cases acc) auto
  obtain ok c' w' where r: "ping connection tnow w = (ok, c', w')"
    by (cases "ping connection tnow w") auto
  let ?acc' = "(store_connection cid c' m, w', if ok then d else d @ [cid])"
  from Cons.prems item acc have "cid \<in> set (map fst (active_connections m))" by auto
  from same_frame_store [OF this]
  have sf: "same_frame (fst acc) (fst ?acc')" using acc by simp
  from Cons.prems item same_frame_keys [OF sf]
  have "fst ` set items \<subseteq> set (map fst (active_connections (fst ?acc')))" by auto
  from same_frame_trans [OF sf Cons.IH [OF this]] item acc r show ?case by simp
qed

section \<open>The counter of active connections\<close>

lemma counted_same_frame: "same_frame m m' \<Longrightarrow> counted m \<Longrightarrow> counted m'"
  using map_eq_imp_length_eq [of fst "active_connections m'" fst "active_connections m"]
  by (simp add: same_frame_def counted_def)

lemma counted_disconnect: "counted m \<Longrightarrow> counted (disconnect cid m)"
  by (simp add: counted_def disconnect_def Let_def)

lemma counted_disconnect_each: "counted m \<Longrightarrow> counted (disconnect_each cids m)"
  by (induction cids arbitrary: m) (simp_all add: counted_disconnect)

lemma counted_count [simp]: "counted (count_sent m) = counted m" "counted (count_failed m) = counted m"
  by (simp_all add: counted_def)

lemma length_update:
  "length (AList.update k v al) = (if k \<in> fst ` set al then length al else Suc (length al))"
  by (induction al) auto

lemma length_update_twice:
  "length (AList.update k v (AList.update k v' al)) = length (AList.update k v' al)"
  by (simp add: length_update)

lemma counted_connect: "counted (fst (snd (connect ws cid_opt uuid tnow accept_ok (m, w)))) \<or> \<not> accept_ok"
  by (simp add: counted_def Let_def length_update split: prod.splits option.splits)

lemma counted_connect': "counted m \<Longrightarrow> counted (fst (snd (connect ws cid_opt uuid tnow accept_ok (m, w))))"
  using counted_connect [of ws cid_opt uuid tnow accept_ok m w] by (cases accept_ok) auto

lemma map_of_keys: "map_of al k = Some v \<Longrightarrow> k \<in> set (map fst al)"
  by (auto dest: map_of_SomeD intro: rev_image_eqI)

lemma counted_subscribe: "counted m \<Longrightarrow> counted (fst (subscribe cid topic tnow (m, w)))"
proof (cases "map_of (active_connections m) cid")
  case None
  assume "counted m"
  with None show ?thesis by (simp add: counted_def)
next
  case (Some c)
  assume cm: "counted m"
  let ?m1 = "m\<lparr>subscriptions := add_subscriber cid topic (subscriptions m)\<rparr>"
  from cm have c1: "counted ?m1" by (simp add: counted_def)
  from map_of_keys [OF Some] have "cid \<in> set (map fst (active_connections ?m1))" by simp
  from counted_same_frame [OF same_frame_store [OF this] c1] Some
  show ?thesis by (simp add: Let_def split: prod.splits)
qed

lemma counted_unsubscribe: "counted m \<Longrightarrow> counted (unsubscribe cid topic m)"
  by (simp add: counted_def)

lemma counted_send_personal_message:
  "counted m \<Longrightarrow> counted (fst (send_personal_message cid msg (m, w)))"
proof (cases "map_of (active_connections m) cid")
  case None
  assume "counted m"
  with None show ?thesis by (simp add: counted_def)
next
  case (Some c)
  assume cm: "counted m"
  from map_of_keys [OF Some] have "cid \<in> set (map fst (active_connections m))" .
  from counted_same_frame [OF same_frame_store [OF this] cm]
  have "\<And>c'. counted (store_connection cid c' m)" .
  with Some cm show ?thesis
    by (simp add: counted_disconnect split: prod.splits)
qed

lemma counted_broadcast_to_topic:
  "counted m \<Longrightarrow> counted (fst (broadcast_to_topic topic msg tnow (m, w)))"
proof (cases "map_of (subscriptions m) topic")
  case None
  assume "counted m"
  with None show ?thesis by simp
next
  case (Some members)
  assume cm: "counted m"
  obtain m1 w1 d where r: "fan_out (stamp tnow msg) members (m, w, []) = (m1, w1, d)"
    by (cases "fan_out (stamp tnow msg) members (m, w, [])") auto
  from same_frame_fan_out [of "(m, w, [])" "stamp tnow msg" members] r
  have "same_frame m m1" by simp
  from counted_disconnect_each [OF counted_same_frame [OF this cm]] Some r
  show ?thesis by simp
qed

lemma counted_broadcast_to_all:
  "counted m \<Longrightarrow> counted (fst (broadcast_to_all msg tnow (m, w)))"
proof -
  assume cm: "counted m"
  obtain m1 w1 d where r: "fan_out_all (stamp tnow msg) (active_connections m) (m, w, []) = (m1, w1, d)"
    by (cases "fan_out_all (stamp tnow msg) (active_connections m) (m, w, [])") auto
  from same_frame_fan_out_all [of "active_connections m" "(m, w, [])" "stamp tnow msg"] r
  have "same_frame m m1" by simp
  from counted_disconnect_each [OF counted_same_frame [OF this cm]] r
  show ?thesis by simp
qed

lemma counted_health_check_pass:
  "counted m \<Longrightarrow> counted (fst (health_check_pass tnow (m, w)))"
proof -
  assume cm: "counted m"
  obtain m1 w1 d where r: "ping_all tnow (active_connections m) (m, w, []) = (m1, w1, d)"
    by (cases "ping_all tnow (active_connections m) (m, w, [])") auto
  from same_frame_ping_all [of "active_connections m" "(m, w, [])" tnow] r
  have "same_frame m m1" by simp
  from counted_disconnect_each [OF counted_same_frame [OF this cm]] r
  show ?thesis by simp
qed

lemma counted_step: "counted (fst mw) \<Longrightarrow> counted (fst (step x mw))"
proof (cases mw)
  case (Pair m w)
  assume "counted (fst mw)"
  with Pair have cm: "counted m" by simp
  show ?thesis
  proof (cases x)
    case (Connect ws cid_opt uuid tnow accept_ok)
    with Pair counted_connect' [OF cm] show ?thesis by simp
  next
    case (Disconnect cid)
    with Pair counted_disconnect [OF cm] show ?thesis by simp
  next
    case (Subscribe cid topic tnow)
    with Pair counted_subscribe [OF cm] show ?thesis by simp
  next
    case (Unsubscribe cid topic)
    with Pair counted_unsubscribe [OF cm] show ?thesis by simp
  next
    case (SendPersonal cid msg)
    with Pair counted_send_personal_message [OF cm] show ?thesis by simp
  next
    case (BroadcastTopic topic msg tnow)
    with Pair counted_broadcast_to_topic [OF cm] show ?thesis by simp
  next
    case (BroadcastAll msg tnow)
    with Pair counted_broadcast_to_all [OF cm] show ?thesis by simp
  next
    case (HealthCheck tnow)
    with Pair counted_health_check_pass [OF cm] show ?thesis by simp
  next
    case Cleanup
    with Pair cm show ?thesis by (simp add: counted_def)
  qed
qed

lemma counted_run: "counted (fst mw) \<Longrightarrow> counted (fst (run xs mw))"
  by (induction xs arbitrary: mw) (simp_all add: counted_step)

text \<open>
  Claim C3. After every operation of the manager (\<^verbatim>\<open>connect\<close>, \<^verbatim>\<open>disconnect\<close>,
  \<^verbatim>\<open>subscribe\<close>, \<^verbatim>\<open>unsubscribe\<close>, \<^verbatim>\<open>send_personal_message\<close>,
  \<^verbatim>\<open>broadcast_to_topic\<close>, \<^verbatim>\<open>broadcast_to_all\<close>, and a pass of either background
  loop), in any sequence from the initial manager and whatever the transport answers,
  the counter \<^verbatim>\<open>stats["active_connections"]\<close> equals the number of entries of
  \<^verbatim>\<open>active_connections\<close>.
\<close>

theorem active_connections_counter:
  "stats_active_connections (stats (fst (run xs (WebSocketManager_init, w)))) =
   int (length (active_connections (fst (run xs (WebSocketManager_init, w)))))"
  using counted_run [of "(WebSocketManager_init, w)" xs]
  by (simp add: counted_def WebSocketManager_init_def)

section \<open>Every operation preserves a property of the stored connections\<close>

lemma entries_connect:
  assumes down: "\<And>k c. Q k c \<Longrightarrow> Q k (c\<lparr>is_active := False\<rparr>)"
    and fresh: "accept_ok \<Longrightarrow> Q (assigned_id cid_opt uuid)
                  (ConnectionManager_init ws (assigned_id cid_opt uuid) tnow)"
    and inv: "\<forall>(k, c) \<in> set (active_connections m). Q k c"
  shows "\<forall>(k, c) \<in> set (active_connections
            (fst (snd (connect ws cid_opt uuid tnow accept_ok (m, w))))). Q k c"
proof (cases accept_ok)
  case False
  with inv show ?thesis by simp
next
  case True
  let ?cid = "assigned_id cid_opt uuid"
  let ?c = "ConnectionManager_init ws ?cid tnow"
  obtain ok c1 w1 where r: "conn_send_personal_message ?c (welcome_message ?cid tnow) w = (ok, c1, w1)"
    by (cases "conn_send_personal_message ?c (welcome_message ?cid tnow) w") auto
  from fresh True have q0: "Q ?cid ?c" by simp
  from conn_send_conn [OF r] q0 down have q1: "Q ?cid c1" by auto
  have upd: "\<forall>(k, c) \<in> set (AList.update ?cid c' (AList.update ?cid ?c (active_connections m))). Q k c"
    if "Q ?cid c'" for c'
    using that set_update_subset [of ?cid c' "active_connections m"] inv by auto
  show ?thesis
  proof (cases "map_of (message_queue m) ?cid")
    case None
    with True r upd [OF q1] show ?thesis by (simp add: Let_def)
  next
    case (Some queued)
    obtain c2 w2 where f: "flush_queue queued (c1, w1) = (c2, w2)"
      by (cases "flush_queue queued (c1, w1)") auto
    from entries_flush_queue [of "Q ?cid" c1 queued w1] q1 down f have "Q ?cid c2" by simp
    with True r Some f upd show ?thesis by (simp add: Let_def)
  qed
qed

lemma entries_subscribe:
  assumes down: "\<And>k c. Q k c \<Longrightarrow> Q k (c\<lparr>is_active := False\<rparr>)"
    and inv: "\<forall>(k, c) \<in> set (active_connections m). Q k c"
  shows "\<forall>(k, c) \<in> set (active_connections (fst (subscribe cid topic tnow (m, w)))). Q k c"
proof (cases "map_of (active_connections m) cid")
  case None
  with inv show ?thesis by simp
next
  case (Some c)
  obtain ok c' w' where r: "conn_send_personal_message c (confirmation_message topic tnow) w = (ok, c', w')"
    by (cases "conn_send_personal_message c (confirmation_message topic tnow) w") auto
  from Some inv have "Q cid c" by (auto dest: map_of_SomeD)
  with conn_send_conn [OF r] down have "Q cid c'" by auto
  with inv Some r set_update_subset [of cid c' "active_connections m"]
  show ?thesis by (auto simp: Let_def)
qed

lemma entries_send_personal_message:
  assumes down: "\<And>k c. Q k c \<Longrightarrow> Q k (c\<lparr>is_active := False\<rparr>)"
    and inv: "\<forall>(k, c) \<in> set (active_connections m). Q k c"
  shows "\<forall>(k, c) \<in> set (active_connections (fst (send_personal_message cid msg (m, w)))). Q k c"
proof (cases "map_of (active_connections m) cid")
  case None
  with inv show ?thesis by simp
next
  case (Some c)
  obtain ok c' w' where r: "conn_send_personal_message c msg w = (ok, c', w')"
    by (cases "conn_send_personal_message c msg w") auto
  from Some inv have "Q cid c" by (auto dest: map_of_SomeD)
  with conn_send_conn [OF r] down have "Q cid c'" by auto
  from entries_store [OF inv this]
  have st: "\<forall>(k, c) \<in> set (active_connections (store_connection cid c' m)). Q k c" .
  from entries_disconnect [OF st, of cid] entries_disconnect [OF inv, of cid] st Some r
  show ?thesis by simp
qed

lemma entries_broadcast_to_topic:
  assumes down: "\<And>k c. Q k c \<Longrightarrow> Q k (c\<lparr>is_active := False\<rparr>)"
    and inv: "\<forall>(k, c) \<in> set (active_connections m). Q k c"
  shows "\<forall>(k, c) \<in> set (active_connections (fst (broadcast_to_topic topic msg tnow (m, w)))). Q k c"
proof (cases "map_of (subscriptions m) topic")
  case None
  with inv show ?thesis by simp
next
  case (Some members)
  obtain m1 w1 d where r: "fan_out (stamp tnow msg) members (m, w, []) = (m1, w1, d)"
    by (cases "fan_out (stamp tnow msg) members (m, w, [])") auto
  from entries_fan_out [of Q "(m, w, [])" "stamp tnow msg" members] down inv r
  have "\<forall>(k, c) \<in> set (active_connections m1). Q k c" by simp
  from entries_disconnect_each [OF this] Some r show ?thesis by simp
qed

lemma entries_broadcast_to_all:
  assumes down: "\<And>k c. Q k c \<Longrightarrow> Q k (c\<lparr>is_active := False\<rparr>)"
    and inv: "\<forall>(k, c) \<in> set (active_connections m). Q k c"
  shows "\<forall>(k, c) \<in> set (active_connections (fst (broadcast_to_all msg tnow (m, w)))). Q k c"
proof -
  obtain m1 w1 d where r: "fan_out_all (stamp tnow msg) (active_connections m) (m, w, []) = (m1, w1, d)"
    by (cases "fan_out_all (stamp tnow msg) (active_connections m) (m, w, [])") auto
  from entries_fan_out_all [of Q "(m, w, [])" "active_connections m" "stamp tnow msg"] down inv r
  have "\<forall>(k, c) \<in> set (active_connections m1). Q k c" by simp
  from entries_disconnect_each [OF this] r show ?thesis by simp
qed

lemma entries_health_check_pass:
  assumes down: "\<And>k c. Q k c \<Longrightarrow> Q k (c\<lparr>is_active := False\<rparr>)"
    and pinged: "\<And>k c t. Q k c \<Longrightarrow> Q k (c\<lparr>last_ping := t\<rparr>)"
    and inv: "\<forall>(k, c) \<in> set (active_connections m). Q k c"
  shows "\<forall>(k, c) \<in> set (active_connections (fst (health_check_pass tnow (m, w)))). Q k c"
proof -
  obtain m1 w1 d where r: "ping_all tnow (active_connections m) (m, w, []) = (m1, w1, d)"
    by (cases "ping_all tnow (active_connections m) (m, w, [])") auto
  from entries_ping_all [of Q "(m, w, [])" "active_connections m" tnow] down pinged inv r
  have "\<forall>(k, c) \<in> set (active_connections m1). Q k c" by simp
  from entries_disconnect_each [OF this] r show ?thesis by simp
qed

lemma entries_step:
  assumes down: "\<And>k c. Q k c \<Longrightarrow> Q k (c\<lparr>is_active := False\<rparr>)"
    and pinged: "\<And>k c t. Q k c \<Longrightarrow> Q k (c\<lparr>last_ping := t\<rparr>)"
    and fresh: "\<And>ws k t. connects x k \<Longrightarrow> Q k (ConnectionManager_init ws k t)"
    and inv: "\<forall>(k, c) \<in> set (active_connections (fst mw)). Q k c"
  shows "\<forall>(k, c) \<in> set (active_connections (fst (step x mw))). Q k c"
proof (cases mw)
  case (Pair m w)
  with inv have im: "\<forall>(k, c) \<in> set (active_connections m). Q k c" by simp
  show ?thesis
  proof (cases x)
    case (Connect ws cid_opt uuid tnow accept_ok)
    with fresh have "accept_ok \<Longrightarrow> Q (assigned_id cid_opt uuid)
                  (ConnectionManager_init ws (assigned_id cid_opt uuid) tnow)" by simp
    from entries_connect [of Q accept_ok cid_opt uuid ws tnow m w, OF down this im] Connect Pair
    show ?thesis by simp
  next
    case (Disconnect cid)
    with Pair entries_disconnect [OF im] show ?thesis by simp
  next
    case (Subscribe cid topic tnow)
    with Pair entries_subscribe [of Q m, OF down im] show ?thesis by simp
  next
    case (Unsubscribe cid topic)
    with Pair im show ?thesis by simp
  next
    case (SendPersonal cid msg)
    with Pair entries_send_personal_message [of Q m, OF down im] show ?thesis by simp
  next
    case (BroadcastTopic topic msg tnow)
    with Pair entries_broadcast_to_topic [of Q m, OF down im] show ?thesis by simp
  next
    case (BroadcastAll msg tnow)
    with Pair entries_broadcast_to_all [of Q m, OF down im] show ?thesis by simp
  next
    case (HealthCheck tnow)
    with Pair entries_health_check_pass [of Q m, OF down pinged im] show ?thesis by simp
  next
    case Cleanup
    with Pair im show ?thesis by simp
  qed
qed

section \<open>The topic index and the connection's own set\<close>

lemma local_subscriptions_empty_run:
  "\<forall>(k, c) \<in> set (active_connections (fst mw)). conn_subscriptions c = {} \<Longrightarrow>
   \<forall>(k, c) \<in> set (active_connections (fst (run xs mw))). conn_subscriptions c = {}"
proof (induction xs arbitrary: mw)
  case Nil
  then show ?case by simp
next
  case (Cons x xs)
  have "\<forall>(k, c) \<in> set (active_connections (fst (step x mw))). conn_subscriptions c = {}"
    by (rule entries_step [of "\<lambda>k c. conn_subscriptions c = {}", OF _ _ _ Cons.prems])
       (simp_all add: ConnectionManager_init_def)
  from Cons.IH [OF this] show ?case by simp
qed

lemma set_add_member: "cid \<in> set (set_add cid members)"
  by (simp add: set_add_def)

text \<open>
  In \<^verbatim>\<open>subscribe\<close> and in the queueing branch of \<^verbatim>\<open>send_personal_message\<close> the
  key is created before it is read, so the read finds it.
\<close>

lemma created_key_is_found:
  "map_of (if map_of al k = None then AList.update k v al else al) k \<noteq> None"
  by (simp add: update_conv')

lemma map_of_add_subscriber:
  "map_of (add_subscriber cid topic subs) topic =
     Some (set_add cid (case map_of subs topic of None \<Rightarrow> [] | Some members \<Rightarrow> members))"
  by (simp add: add_subscriber_def Let_def update_conv' split: option.splits)

lemma subscriptions_subscribe:
  "subscriptions (fst (subscribe cid topic tnow (m, w))) = add_subscriber cid topic (subscriptions m)"
  by (simp add: Let_def split: option.splits prod.splits)

text \<open>
  Claim C1, as amended. The claim says that a client id is in \<^verbatim>\<open>topic_index[t]\<close>
  if and only if the connection stored for it has \<^verbatim>\<open>t\<close> in its own
  \<^verbatim>\<open>subscriptions\<close> set. The code creates that set empty (line 23) and never writes
  it. What holds: \<^verbatim>\<open>subscribe(client_id, t)\<close> puts the client id into the entry of
  \<^verbatim>\<open>t\<close> in the topic index, from any state; and after any sequence of operations
  from the initial manager no stored connection has any topic in its own set, so the
  direction from the connection's set to the index holds and the converse does not.
\<close>

theorem subscribe_writes_topic_index_only:
  "in_topic_index (fst (subscribe cid topic tnow (m, w))) cid topic \<and>
   \<not> in_local_subscriptions (fst (run xs (WebSocketManager_init, w0))) cid' topic'"
proof
  show "in_topic_index (fst (subscribe cid topic tnow (m, w))) cid topic"
    by (simp add: in_topic_index_def subscriptions_subscribe map_of_add_subscriber set_add_member
        del: subscribe.simps)
next
  have "\<forall>(k, c) \<in> set (active_connections (fst (run xs (WebSocketManager_init, w0)))).
          conn_subscriptions c = {}"
    by (rule local_subscriptions_empty_run) (simp add: WebSocketManager_init_def)
  then show "\<not> in_local_subscriptions (fst (run xs (WebSocketManager_init, w0))) cid' topic'"
    by (auto simp: in_local_subscriptions_def split: option.splits dest: map_of_SomeD)
qed

text \<open>
  Claim C1 as stated fails: after \<^verbatim>\<open>connect\<close> and \<^verbatim>\<open>subscribe("alice", "news")\<close>
  on a transport that delivers everything, alice has a connection and is in the topic
  index under \<^verbatim>\<open>news\<close>, and her connection's own set does not contain \<^verbatim>\<open>news\<close>.
\<close>

theorem subscribe_leaves_local_set_empty:
  "has_connection (fst (run alice_subscribes (WebSocketManager_init, calm_world))) ''alice'' \<and>
   in_topic_index (fst (run alice_subscribes (WebSocketManager_init, calm_world))) ''alice'' ''news'' \<and>
   \<not> in_local_subscriptions (fst (run alice_subscribes (WebSocketManager_init, calm_world)))
        ''alice'' ''news''"
  by (simp add: alice_subscribes_def WebSocketManager_init_def calm_world_def has_connection_def
      in_topic_index_def in_local_subscriptions_def assigned_id_def ConnectionManager_init_def
      conn_send_personal_message_def observe_def touch_def record_event_def Let_def
      add_subscriber_def set_add_def store_connection_def)

section \<open>The connection's send primitive and its flag\<close>

lemma never_reset_step:
  assumes dist: "distinct (map fst (active_connections (fst mw)))"
    and before: "map_of (active_connections (fst mw)) cid = Some c0" "\<not> is_active c0"
    and other: "\<not> connects x cid"
    and after: "map_of (active_connections (fst (step x mw))) cid = Some c1"
  shows "\<not> is_active c1"
proof -
  let ?Q = "\<lambda>k c. k = cid \<longrightarrow> \<not> is_active c"
  have inv: "\<forall>(k, c) \<in> set (active_connections (fst mw)). ?Q k c"
  proof clarify
    fix c assume "(cid, c) \<in> set (active_connections (fst mw))" "is_active c"
    with dist before show False by simp
  qed
  have "\<forall>(k, c) \<in> set (active_connections (fst (step x mw))). ?Q k c"
    by (rule entries_step [of ?Q, OF _ _ _ inv]) (use other in auto)
  with map_of_SomeD [OF after] show ?thesis by auto
qed

text \<open>
  Claim C7, as amended. The send primitive of a connection never raises an
  \<^verbatim>\<open>Exception\<close> to its caller: whenever \<^verbatim>\<open>send_text\<close> returns or raises an
  \<^verbatim>\<open>Exception\<close> it returns a boolean, true exactly when the flag is up, the channel
  is in the connected state and the transport accepts the text; in every other such
  case the flag is down afterwards and the result is false. An exception leaves the
  method exactly when the flag is up, the channel is connected and \<^verbatim>\<open>send_text\<close>
  raises a \<^verbatim>\<open>BaseException\<close> that is not an \<^verbatim>\<open>Exception\<close>; the connection is then
  as it was. Neither the send primitive nor \<^verbatim>\<open>ping\<close> raises a flag that is down,
  and no operation of the manager does: a connection stored under a client id with its
  flag down is, after any operation, removed or still has its flag down, unless the
  operation is a \<^verbatim>\<open>connect\<close> for that client id, which stores a newly constructed
  connection object under the id.
\<close>

theorem send_reports_failure_and_flag_stays_down:
  "(fst (conn_send_personal_message c msg w) \<longleftrightarrow>
      is_active c \<and> state_connected (observe w) \<and> send_text_ok (observe w)) \<and>
   (is_active (fst (snd (conn_send_personal_message c msg w))) \<longleftrightarrow>
      fst (conn_send_personal_message c msg w)) \<and>
   (is_active (fst (snd (ping c tnow w))) \<longrightarrow> is_active c \<and> fst (ping c tnow w)) \<and>
   (distinct (map fst (active_connections (fst mw))) \<and>
    map_of (active_connections (fst mw)) cid = Some c0 \<and> \<not> is_active c0 \<and>
    \<not> connects x cid \<and>
    map_of (active_connections (fst (step x mw))) cid = Some c1 \<longrightarrow> \<not> is_active c1) \<and>
   (text \<noteq> TextRaisesBaseException \<longrightarrow>
      fst (conn_send_or_raise c connected text) =
        Some (is_active c \<and> connected \<and> text = TextReturns) \<and>
      (is_active (snd (conn_send_or_raise c connected text)) \<longleftrightarrow>
         is_active c \<and> connected \<and> text = TextReturns)) \<and>
   (fst (conn_send_or_raise c connected text) = None \<longleftrightarrow>
      is_active c \<and> connected \<and> text = TextRaisesBaseException) \<and>
   (fst (conn_send_or_raise c connected text) = None \<longrightarrow>
      snd (conn_send_or_raise c connected text) = c) \<and>
   (is_active (snd (conn_send_or_raise c connected text)) \<longrightarrow> is_active c)"
proof (intro conjI impI)
  show "fst (conn_send_personal_message c msg w) \<longleftrightarrow>
      is_active c \<and> state_connected (observe w) \<and> send_text_ok (observe w)"
    by (simp add: conn_send_personal_message_def)
  show "is_active (fst (snd (conn_send_personal_message c msg w))) \<longleftrightarrow>
      fst (conn_send_personal_message c msg w)"
    by (simp add: conn_send_personal_message_def)
  show "fst (conn_send_or_raise c connected text) = None \<longleftrightarrow>
      is_active c \<and> connected \<and> text = TextRaisesBaseException"
    by (simp add: conn_send_or_raise_def split: send_text_outcome.splits)
next
  assume "is_active (fst (snd (ping c tnow w)))"
  then show "is_active c" "fst (ping c tnow w)"
    by (simp_all add: ping_def split: if_splits)
next
  assume "distinct (map fst (active_connections (fst mw))) \<and>
    map_of (active_connections (fst mw)) cid = Some c0 \<and> \<not> is_active c0 \<and>
    \<not> connects x cid \<and>
    map_of (active_connections (fst (step x mw))) cid = Some c1"
  then show "\<not> is_active c1" using never_reset_step [of mw cid c0 x c1] by blast
next
  assume "text \<noteq> TextRaisesBaseException"
  then show "fst (conn_send_or_raise c connected text) =
        Some (is_active c \<and> connected \<and> text = TextReturns)"
    "is_active (snd (conn_send_or_raise c connected text)) \<longleftrightarrow>
         is_active c \<and> connected \<and> text = TextReturns"
    by (simp_all add: conn_send_or_raise_def split: send_text_outcome.splits)
next
  assume "fst (conn_send_or_raise c connected text) = None"
  then show "snd (conn_send_or_raise c connected text) = c"
    by (simp add: conn_send_or_raise_def split: send_text_outcome.splits if_splits)
next
  assume "is_active (snd (conn_send_or_raise c connected text))"
  then show "is_active c"
    by (simp add: conn_send_or_raise_def split: send_text_outcome.splits if_splits)
qed

theorem send_reports_failure_and_flag_stays_down_witness:
  "\<not> fst (conn_send_personal_message (demo_connection ''alice'' True) [] fail_once) \<and>
   \<not> is_active (fst (snd (conn_send_personal_message (demo_connection ''alice'' True) [] fail_once))) \<and>
   is_active (fst (snd (ping (demo_connection ''alice'' True) ''t1'' calm_world))) \<and>
   is_active (demo_connection ''alice'' True) \<and>
   fst (ping (demo_connection ''alice'' True) ''t1'' calm_world) \<and>
   distinct (map fst (active_connections (fst (demo_manager, calm_world)))) \<and>
   map_of (active_connections (fst (demo_manager, calm_world))) ''bob'' =
     Some (demo_connection ''bob'' False) \<and>
   \<not> is_active (demo_connection ''bob'' False) \<and>
   \<not> connects (Subscribe ''bob'' ''news'' ''t1'') ''bob'' \<and>
   map_of (active_connections (fst (step (Subscribe ''bob'' ''news'' ''t1'') (demo_manager, calm_world))))
     ''bob'' = Some (demo_connection ''bob'' False) \<and>
   TextRaisesException \<noteq> TextRaisesBaseException \<and>
   fst (conn_send_or_raise (demo_connection ''alice'' True) True TextRaisesException) = Some False \<and>
   \<not> is_active (snd (conn_send_or_raise (demo_connection ''alice'' True) True TextRaisesException)) \<and>
   fst (conn_send_or_raise (demo_connection ''alice'' True) True TextReturns) = Some True \<and>
   is_active (snd (conn_send_or_raise (demo_connection ''alice'' True) True TextReturns)) \<and>
   fst (conn_send_or_raise (demo_connection ''alice'' True) True TextRaisesBaseException) = None \<and>
   snd (conn_send_or_raise (demo_connection ''alice'' True) True TextRaisesBaseException) =
     demo_connection ''alice'' True"
  using send_reports_failure_and_flag_stays_down
    [of "demo_connection ''alice'' True" "[]" fail_once "''t1''" "(demo_manager, calm_world)" "''bob''"
       "demo_connection ''bob'' False" "Subscribe ''bob'' ''news'' ''t1''"
       "demo_connection ''bob'' False" TextRaisesException True]
    send_reports_failure_and_flag_stays_down
    [of "demo_connection ''alice'' True" "[]" calm_world "''t1''" "(demo_manager, calm_world)" "''bob''"
       "demo_connection ''bob'' False" "Subscribe ''bob'' ''news'' ''t1''"
       "demo_connection ''bob'' False" TextReturns True]
    send_reports_failure_and_flag_stays_down
    [of "demo_connection ''alice'' True" "[]" calm_world "''t1''" "(demo_manager, calm_world)" "''bob''"
       "demo_connection ''bob'' False" "Subscribe ''bob'' ''news'' ''t1''"
       "demo_connection ''bob'' False" TextRaisesBaseException True]
  by (simp add: demo_manager_def demo_connection_def ConnectionManager_init_def fail_once_def
      calm_world_def ping_def conn_send_personal_message_def observe_def store_connection_def
      Let_def conn_send_or_raise_def)

text \<open>
  Claim C7 as stated fails: when the flag is up, the channel is connected and
  \<^verbatim>\<open>send_text\<close> raises a \<^verbatim>\<open>BaseException\<close> that is not an \<^verbatim>\<open>Exception\<close>, the
  handler of line 42 does not catch it, so the send primitive returns no boolean, the
  exception reaches the caller, and the flag is still up.
\<close>

theorem send_raises_when_cancelled:
  "is_active (demo_connection ''alice'' True) \<and>
   fst (conn_send_or_raise (demo_connection ''alice'' True) True TextRaisesBaseException) = None \<and>
   is_active (snd (conn_send_or_raise (demo_connection ''alice'' True) True TextRaisesBaseException))"
  by (simp add: conn_send_or_raise_def demo_connection_def ConnectionManager_init_def)

section \<open>Targeted delivery\<close>

lemma stats_disconnect:
  "messages_sent (stats (disconnect cid m)) = messages_sent (stats m)"
  "failed_sends (stats (disconnect cid m)) = failed_sends (stats m)"
  "total_connections (stats (disconnect cid m)) = total_connections (stats m)"
  by (simp_all add: disconnect_def Let_def)

lemma failed_sends_send_personal_message:
  "failed_sends (stats (fst (send_personal_message cid msg (m, w)))) =
     failed_sends (stats m) + (if active_send_fails m cid msg w then 1 else 0)"
  by (simp add: active_send_fails_def stats_disconnect split: option.splits prod.splits)

text \<open>
  Claim C10. When the client id has a connection whose flag is down, the manager's
  \<^verbatim>\<open>send_personal_message\<close> does nothing but disconnect the client: the result is the
  state after \<^verbatim>\<open>disconnect\<close>, the transport is not touched, the client has no
  connection afterwards and the counters \<^verbatim>\<open>messages_sent\<close> and \<^verbatim>\<open>failed_sends\<close> are
  as before. In general \<^verbatim>\<open>failed_sends\<close> grows by one exactly when the client has a
  connection with its flag up whose send returns false, and not at all otherwise.
\<close>

theorem inactive_target_disconnected_without_count:
  "(map_of (active_connections m) cid = Some c \<and> \<not> is_active c \<longrightarrow>
      send_personal_message cid msg (m, w) = (disconnect cid m, w) \<and>
      \<not> has_connection (disconnect cid m) cid \<and>
      messages_sent (stats (disconnect cid m)) = messages_sent (stats m) \<and>
      failed_sends (stats (disconnect cid m)) = failed_sends (stats m)) \<and>
   failed_sends (stats (fst (send_personal_message cid msg (m, w)))) =
     failed_sends (stats m) + (if active_send_fails m cid msg w then 1 else 0)"
  using failed_sends_send_personal_message [of cid msg m w]
  by (simp add: has_connection_def disconnect_removes stats_disconnect)

theorem inactive_target_disconnected_without_count_witness:
  "map_of (active_connections demo_manager) ''bob'' = Some (demo_connection ''bob'' False) \<and>
   \<not> is_active (demo_connection ''bob'' False) \<and>
   send_personal_message ''bob'' [] (demo_manager, calm_world) =
     (disconnect ''bob'' demo_manager, calm_world) \<and>
   \<not> has_connection (disconnect ''bob'' demo_manager) ''bob'' \<and>
   failed_sends (stats (disconnect ''bob'' demo_manager)) = 0 \<and>
   failed_sends (stats (fst (send_personal_message ''alice'' [] (demo_manager, fail_once)))) = 1"
  using inactive_target_disconnected_without_count
    [of demo_manager "''bob''" "demo_connection ''bob'' False" "[]" calm_world]
    inactive_target_disconnected_without_count
    [of demo_manager "''alice''" "demo_connection ''alice'' True" "[]" fail_once]
  by (simp add: demo_manager_def demo_connection_def ConnectionManager_init_def fail_once_def
      active_send_fails_def conn_send_personal_message_def observe_def)

section \<open>The cleanup pass\<close>

lemma latest_100_idem: "latest_100 (latest_100 msgs) = latest_100 msgs"
  by (simp add: latest_100_def)

text \<open>
  The pass deletes no key, so every key of the snapshot is found when the loop reads it.
\<close>

lemma truncate_queue_keeps_keys:
  "map_of q k \<noteq> None \<Longrightarrow> map_of (truncate_queue cid q) k \<noteq> None"
  by (auto simp: truncate_queue_def update_conv' split: option.splits)

lemma cleanup_keys_lookup:
  "map_of q k \<noteq> None \<Longrightarrow> map_of (cleanup_keys seen q) k \<noteq> None"
proof (induction seen arbitrary: q)
  case Nil
  then show ?case by simp
next
  case (Cons cid seen)
  from Cons.IH [OF truncate_queue_keeps_keys [OF Cons.prems]] show ?case by simp
qed

lemma map_of_truncate_queue:
  "map_of (truncate_queue cid q) k =
     (if k = cid then map_option latest_100 (map_of q k) else map_of q k)"
  by (simp add: truncate_queue_def latest_100_def update_conv' split: option.splits)

lemma map_of_cleanup_keys:
  "map_of (cleanup_keys cids q) k =
     (if k \<in> set cids then map_option latest_100 (map_of q k) else map_of q k)"
proof (induction cids arbitrary: q)
  case Nil
  show ?case by simp
next
  case (Cons cid cids)
  show ?case
    by (simp add: Cons.IH map_of_truncate_queue option.map_comp comp_def latest_100_idem)
qed

lemma map_of_cleanup_pass:
  "map_of (message_queue (cleanup_pass m)) k = map_option latest_100 (map_of (message_queue m) k)"
proof (cases "map_of (message_queue m) k")
  case None
  then show ?thesis by (simp add: cleanup_pass_def map_of_cleanup_keys)
next
  case (Some msgs)
  from map_of_keys [OF Some] Some show ?thesis
    by (simp add: cleanup_pass_def map_of_cleanup_keys)
qed

text \<open>
  Claim C6. One pass of the cleanup loop cuts every queue of more than 100 messages
  down to exactly its last 100 messages, in their order (the queue before is some
  older messages followed by the ones kept), and leaves every queue of at most 100
  messages as it is.
\<close>

theorem cleanup_pass_keeps_latest:
  assumes "map_of (message_queue m) cid = Some msgs"
  shows "(100 < length msgs \<longrightarrow>
            (\<exists>older kept. msgs = older @ kept \<and> length kept = 100 \<and>
               map_of (message_queue (cleanup_pass m)) cid = Some kept)) \<and>
         (length msgs \<le> 100 \<longrightarrow> map_of (message_queue (cleanup_pass m)) cid = Some msgs)"
proof (intro conjI impI)
  assume long: "100 < length msgs"
  let ?n = "length msgs - 100"
  have "msgs = take ?n msgs @ drop ?n msgs" by simp
  moreover from long have "length (drop ?n msgs) = 100" by simp
  moreover from long assms have "map_of (message_queue (cleanup_pass m)) cid = Some (drop ?n msgs)"
    by (simp add: map_of_cleanup_pass latest_100_def)
  ultimately show "\<exists>older kept. msgs = older @ kept \<and> length kept = 100 \<and>
               map_of (message_queue (cleanup_pass m)) cid = Some kept"
    by blast
next
  assume "length msgs \<le> 100"
  with assms show "map_of (message_queue (cleanup_pass m)) cid = Some msgs"
    by (simp add: map_of_cleanup_pass latest_100_def)
qed

theorem cleanup_pass_keeps_latest_witness:
  "map_of (message_queue backlog_manager) ''carol'' = Some (map numbered [0..<101]) \<and>
   100 < length (map numbered [0..<101]) \<and>
   (\<exists>older kept. map numbered [0..<101] = older @ kept \<and> length kept = 100 \<and>
      map_of (message_queue (cleanup_pass backlog_manager)) ''carol'' = Some kept) \<and>
   map_of (message_queue backlog_manager) ''dave'' = Some (map numbered [0..<3]) \<and>
   length (map numbered [0..<3]) \<le> 100 \<and>
   map_of (message_queue (cleanup_pass backlog_manager)) ''dave'' = Some (map numbered [0..<3])"
proof -
  have carol: "map_of (message_queue backlog_manager) ''carol'' = Some (map numbered [0..<101])"
    by (simp add: backlog_manager_def)
  have dave: "map_of (message_queue backlog_manager) ''dave'' = Some (map numbered [0..<3])"
    by (simp add: backlog_manager_def)
  from cleanup_pass_keeps_latest [OF carol] cleanup_pass_keeps_latest [OF dave] carol dave
  show ?thesis by simp
qed

section \<open>What disconnect does to the topic index\<close>

lemma without_idem: "without cid (without cid entry) = without cid entry"
  by (simp add: without_def split: option.splits)

lemma map_of_discard_from_topic:
  "map_of (discard_from_topic cid topic subs) t =
     (if t = topic then without cid (map_of subs t) else map_of subs t)"
  by (simp add: discard_from_topic_def without_def set_discard_def update_conv' delete_conv'
      split: option.splits)

lemma map_of_disconnect_topics:
  "map_of (disconnect_topics cid topics subs) t =
     (if t \<in> set topics then without cid (map_of subs t) else map_of subs t)"
proof (induction topics arbitrary: subs)
  case Nil
  show ?case by simp
next
  case (Cons topic topics)
  show ?case by (simp add: Cons.IH map_of_discard_from_topic without_idem)
qed

text \<open>
  Every topic of the snapshot is found when the loop of \<^verbatim>\<open>disconnect\<close> reads it:
  before its own iteration no iteration has written it.
\<close>

lemma disconnect_topics_lookup:
  "distinct (seen @ topic # rest) \<Longrightarrow> map_of subs topic = Some members \<Longrightarrow>
   map_of (disconnect_topics cid seen subs) topic = Some members"
  by (simp add: map_of_disconnect_topics)

lemma map_of_subscriptions_disconnect:
  "map_of (subscriptions (disconnect cid m)) t =
     (if has_connection m cid then without cid (map_of (subscriptions m) t)
      else map_of (subscriptions m) t)"
proof (cases "map_of (subscriptions m) t")
  case None
  then show ?thesis
    by (simp add: disconnect_def Let_def has_connection_def map_of_disconnect_topics without_def)
next
  case (Some members)
  from map_of_keys [OF Some] show ?thesis
    by (simp add: disconnect_def Let_def has_connection_def map_of_disconnect_topics)
qed

lemma removeAll_Nil_member: "removeAll x xs = [] \<Longrightarrow> c \<in> set xs \<Longrightarrow> c = x"
  using set_removeAll [of x xs] by auto

lemma in_topic_index_disconnect:
  "in_topic_index (disconnect cid m) c t \<longleftrightarrow>
     in_topic_index m c t \<and> (has_connection m cid \<longrightarrow> c \<noteq> cid)"
  by (auto simp: in_topic_index_def map_of_subscriptions_disconnect without_def
      split: option.splits if_splits dest: removeAll_Nil_member)

lemma has_connection_disconnect:
  "has_connection (disconnect cid m) c \<longleftrightarrow> has_connection m c \<and> c \<noteq> cid"
  by (auto simp: has_connection_def disconnect_def Let_def delete_conv')

lemma has_connection_keys: "has_connection m c \<longleftrightarrow> c \<in> set (map fst (active_connections m))"
  by (simp add: has_connection_def map_of_eq_None_iff)

lemma has_connection_same_frame: "same_frame m m' \<Longrightarrow> has_connection m' c = has_connection m c"
  by (simp add: has_connection_keys same_frame_def)

lemma in_topic_index_same_frame:
  "same_frame m m' \<Longrightarrow> in_topic_index m' c t = in_topic_index m c t"
  by (simp add: in_topic_index_def same_frame_def)

section \<open>Subscribers without a connection\<close>

lemma no_stale_same_frame: "same_frame m m' \<Longrightarrow> no_stale m \<Longrightarrow> no_stale m'"
  by (simp add: no_stale_def has_connection_same_frame in_topic_index_same_frame)

lemma no_stale_disconnect: "no_stale m \<Longrightarrow> no_stale (disconnect cid m)"
  by (auto simp: no_stale_def in_topic_index_disconnect has_connection_disconnect)

lemma no_stale_disconnect_each: "no_stale m \<Longrightarrow> no_stale (disconnect_each cids m)"
  by (induction cids arbitrary: m) (simp_all add: no_stale_disconnect)

lemma subscriptions_connect:
  "subscriptions (fst (snd (connect ws cid_opt uuid tnow accept_ok (m, w)))) = subscriptions m"
  by (simp add: Let_def split: prod.splits option.splits)

lemma has_connection_connect:
  "has_connection m c \<Longrightarrow>
   has_connection (fst (snd (connect ws cid_opt uuid tnow accept_ok (m, w)))) c"
  by (simp add: has_connection_def Let_def update_conv' split: prod.splits option.splits)

lemma no_stale_connect:
  "no_stale m \<Longrightarrow> no_stale (fst (snd (connect ws cid_opt uuid tnow accept_ok (m, w))))"
  unfolding no_stale_def in_topic_index_def subscriptions_connect
  using has_connection_connect by blast

lemma has_connection_subscribe:
  "has_connection (fst (subscribe cid topic tnow (m, w))) c = has_connection m c"
  by (auto simp: has_connection_def Let_def update_conv' split: prod.splits option.splits)

lemma in_topic_index_subscribe:
  "in_topic_index (fst (subscribe cid topic tnow (m, w))) c t \<longleftrightarrow>
     in_topic_index m c t \<or> (c = cid \<and> t = topic)"
proof (cases "t = topic")
  case True
  then show ?thesis
    by (auto simp: in_topic_index_def subscriptions_subscribe map_of_add_subscriber set_add_def
        simp del: subscribe.simps split: option.splits)
next
  case False
  then show ?thesis
    by (auto simp: in_topic_index_def subscriptions_subscribe add_subscriber_def Let_def
        update_conv' simp del: subscribe.simps split: option.splits)
qed

lemma no_stale_subscribe:
  "no_stale m \<Longrightarrow> has_connection m cid \<Longrightarrow> no_stale (fst (subscribe cid topic tnow (m, w)))"
  by (auto simp: no_stale_def in_topic_index_subscribe has_connection_subscribe
      simp del: subscribe.simps)

lemma in_topic_index_unsubscribe:
  "in_topic_index (unsubscribe cid topic m) c t \<Longrightarrow> in_topic_index m c t"
  by (auto simp: in_topic_index_def unsubscribe_def set_discard_def update_conv' delete_conv'
      split: option.splits if_splits)

lemma no_stale_unsubscribe: "no_stale m \<Longrightarrow> no_stale (unsubscribe cid topic m)"
  using in_topic_index_unsubscribe by (fastforce simp: no_stale_def has_connection_def)

lemma no_stale_send_personal_message:
  assumes "no_stale m"
  shows "no_stale (fst (send_personal_message cid msg (m, w)))"
proof (cases "map_of (active_connections m) cid")
  case None
  with assms show ?thesis by (simp add: no_stale_def in_topic_index_def has_connection_def)
next
  case (Some c)
  have st: "no_stale (store_connection cid c' m)" for c'
    by (rule no_stale_same_frame [OF same_frame_store [OF map_of_keys [OF Some]] assms])
  have cnt: "no_stale (count_sent m') = no_stale m'" "no_stale (count_failed m') = no_stale m'" for m'
    by (simp_all add: no_stale_def in_topic_index_def has_connection_def)
  from Some assms st show ?thesis
    by (simp add: cnt no_stale_disconnect split: prod.splits)
qed

lemma no_stale_broadcast_to_topic:
  assumes "no_stale m"
  shows "no_stale (fst (broadcast_to_topic topic msg tnow (m, w)))"
proof (cases "map_of (subscriptions m) topic")
  case None
  with assms show ?thesis by simp
next
  case (Some members)
  obtain m1 w1 d where r: "fan_out (stamp tnow msg) members (m, w, []) = (m1, w1, d)"
    by (cases "fan_out (stamp tnow msg) members (m, w, [])") auto
  from same_frame_fan_out [of "(m, w, [])" "stamp tnow msg" members] r
  have "same_frame m m1" by simp
  from no_stale_disconnect_each [OF no_stale_same_frame [OF this assms]] Some r
  show ?thesis by simp
qed

lemma no_stale_broadcast_to_all:
  assumes "no_stale m"
  shows "no_stale (fst (broadcast_to_all msg tnow (m, w)))"
proof -
  obtain m1 w1 d where r: "fan_out_all (stamp tnow msg) (active_connections m) (m, w, []) = (m1, w1, d)"
    by (cases "fan_out_all (stamp tnow msg) (active_connections m) (m, w, [])") auto
  from same_frame_fan_out_all [of "active_connections m" "(m, w, [])" "stamp tnow msg"] r
  have "same_frame m m1" by simp
  from no_stale_disconnect_each [OF no_stale_same_frame [OF this assms]] r
  show ?thesis by simp
qed

lemma no_stale_health_check_pass:
  assumes "no_stale m"
  shows "no_stale (fst (health_check_pass tnow (m, w)))"
proof -
  obtain m1 w1 d where r: "ping_all tnow (active_connections m) (m, w, []) = (m1, w1, d)"
    by (cases "ping_all tnow (active_connections m) (m, w, [])") auto
  from same_frame_ping_all [of "active_connections m" "(m, w, [])" tnow] r
  have "same_frame m m1" by simp
  from no_stale_disconnect_each [OF no_stale_same_frame [OF this assms]] r
  show ?thesis by simp
qed

lemma no_stale_step:
  assumes "no_stale (fst mw)" "subscribes_known x (fst mw)"
  shows "no_stale (fst (step x mw))"
proof (cases mw)
  case (Pair m w)
  with assms have ns: "no_stale m" and known: "subscribes_known x m" by simp_all
  show ?thesis
  proof (cases x)
    case (Connect ws cid_opt uuid tnow accept_ok)
    with Pair no_stale_connect [OF ns] show ?thesis by simp
  next
    case (Disconnect cid)
    with Pair no_stale_disconnect [OF ns] show ?thesis by simp
  next
    case (Subscribe cid topic tnow)
    with Pair known no_stale_subscribe [OF ns] show ?thesis by simp
  next
    case (Unsubscribe cid topic)
    with Pair no_stale_unsubscribe [OF ns] show ?thesis by simp
  next
    case (SendPersonal cid msg)
    with Pair no_stale_send_personal_message [OF ns] show ?thesis by simp
  next
    case (BroadcastTopic topic msg tnow)
    with Pair no_stale_broadcast_to_topic [OF ns] show ?thesis by simp
  next
    case (BroadcastAll msg tnow)
    with Pair no_stale_broadcast_to_all [OF ns] show ?thesis by simp
  next
    case (HealthCheck tnow)
    with Pair no_stale_health_check_pass [OF ns] show ?thesis by simp
  next
    case Cleanup
    with Pair ns show ?thesis by (simp add: no_stale_def in_topic_index_def has_connection_def)
  qed
qed

lemma no_stale_run:
  "no_stale (fst mw) \<Longrightarrow> subscribes_live xs mw \<Longrightarrow> no_stale (fst (run xs mw))"
  by (induction xs arbitrary: mw) (simp_all add: no_stale_step)

text \<open>
  Claim C2, as amended. \<^verbatim>\<open>subscribe\<close> adds the client id to the topic index whether
  or not the id has a connection (line 161 comes before the test of line 164), and
  nothing removes an id that has no connection except \<^verbatim>\<open>unsubscribe\<close>. What holds:
  in every state reached from the initial manager by operations among which
  \<^verbatim>\<open>subscribe\<close> is called only for client ids that have a connection at the time of
  the call, every client id in the topic index has a connection; and
  \<^verbatim>\<open>subscribe(client_id, t)\<close> for a client id without a connection leaves the id in
  \<^verbatim>\<open>topic_index[t]\<close>, still without a connection.
\<close>

theorem subscribers_have_connections_if_subscribed_live:
  "(subscribes_live xs (WebSocketManager_init, w0) \<and>
    in_topic_index (fst (run xs (WebSocketManager_init, w0))) c t \<longrightarrow>
      has_connection (fst (run xs (WebSocketManager_init, w0))) c) \<and>
   (\<not> has_connection m cid \<longrightarrow>
      in_topic_index (fst (subscribe cid topic tnow (m, w))) cid topic \<and>
      \<not> has_connection (fst (subscribe cid topic tnow (m, w))) cid)"
proof (intro conjI impI)
  assume a: "subscribes_live xs (WebSocketManager_init, w0) \<and>
    in_topic_index (fst (run xs (WebSocketManager_init, w0))) c t"
  have "no_stale (fst (WebSocketManager_init, w0))"
    by (simp add: no_stale_def in_topic_index_def WebSocketManager_init_def)
  from no_stale_run [OF this] a have "no_stale (fst (run xs (WebSocketManager_init, w0)))"
    by simp
  with a show "has_connection (fst (run xs (WebSocketManager_init, w0))) c"
    unfolding no_stale_def by blast
next
  show "in_topic_index (fst (subscribe cid topic tnow (m, w))) cid topic"
    by (simp add: in_topic_index_subscribe del: subscribe.simps)
  assume "\<not> has_connection m cid"
  then show "\<not> has_connection (fst (subscribe cid topic tnow (m, w))) cid"
    by (simp add: has_connection_subscribe del: subscribe.simps)
qed

theorem subscribers_have_connections_if_subscribed_live_witness:
  "subscribes_live alice_session (WebSocketManager_init, calm_world) \<and>
   in_topic_index (fst (run alice_session (WebSocketManager_init, calm_world))) ''alice'' ''news'' \<and>
   has_connection (fst (run alice_session (WebSocketManager_init, calm_world))) ''alice'' \<and>
   \<not> has_connection WebSocketManager_init ''ghost'' \<and>
   in_topic_index (fst (subscribe ''ghost'' ''news'' ''t1'' (WebSocketManager_init, calm_world)))
     ''ghost'' ''news'' \<and>
   \<not> has_connection (fst (subscribe ''ghost'' ''news'' ''t1'' (WebSocketManager_init, calm_world)))
     ''ghost''"
  using subscribers_have_connections_if_subscribed_live
    [of alice_session calm_world "''alice''" "''news''" WebSocketManager_init "''ghost''"
      "''news''" "''t1''" calm_world]
  by (simp add: alice_session_def WebSocketManager_init_def calm_world_def has_connection_def
      in_topic_index_def assigned_id_def ConnectionManager_init_def stamp_def
      conn_send_personal_message_def observe_def touch_def record_event_def Let_def
      add_subscriber_def set_add_def store_connection_def topic_step_def send_step_def
      count_sent_def disconnect_def discard_from_topic_def set_discard_def)

text \<open>
  Claim C2 as stated fails: \<^verbatim>\<open>subscribe("ghost", "news")\<close> on the initial manager
  leaves \<^verbatim>\<open>ghost\<close> in the topic index under \<^verbatim>\<open>news\<close> although \<^verbatim>\<open>ghost\<close> has no
  connection.
\<close>

theorem subscribe_without_connection_leaves_stale_entry:
  "in_topic_index (fst (run [Subscribe ''ghost'' ''news'' ''t1''] (WebSocketManager_init, calm_world)))
     ''ghost'' ''news'' \<and>
   \<not> has_connection (fst (run [Subscribe ''ghost'' ''news'' ''t1''] (WebSocketManager_init, calm_world)))
     ''ghost''"
  by (simp add: WebSocketManager_init_def has_connection_def in_topic_index_def
      add_subscriber_def set_add_def Let_def)

section \<open>The offline queue\<close>

lemma sends_of_append: "sends_of (es @ fs) = sends_of es @ sends_of fs"
  by (induction es rule: sends_of.induct) simp_all

lemma deliveries_append: "deliveries (es @ fs) = deliveries es @ deliveries fs"
  by (induction es rule: deliveries.induct) simp_all

lemma conn_send_trace:
  assumes "conn_send_personal_message c msg w = (ok, c', w')"
  shows "\<exists>r. trace w' = trace w @ [SendCall (client_id c) msg r] \<and> (r = Delivered \<longleftrightarrow> ok) \<and>
             (r = Skipped \<longleftrightarrow> \<not> is_active c)"
  using assms
  by (auto simp: conn_send_personal_message_def touch_def record_event_def split: if_splits)

lemma conn_send_client_id:
  "conn_send_personal_message c msg w = (ok, c', w') \<Longrightarrow> client_id c' = client_id c"
  by (auto dest: conn_send_conn)

lemma flush_queue_trace:
  "flush_queue msgs (c, w) = (c', w') \<Longrightarrow>
   \<exists>es k. trace w' = trace w @ es \<and> sends_of es = map (Pair (client_id c)) msgs \<and>
          deliveries es = take k (map (Pair (client_id c)) msgs) \<and>
          (\<not> is_active c \<longrightarrow> k = 0)"
proof (induction msgs arbitrary: c w)
  case Nil
  then show ?case by simp
next
  case (Cons msg msgs)
  obtain ok c1 w1 where r: "conn_send_personal_message c msg w = (ok, c1, w1)"
    by (cases "conn_send_personal_message c msg w") auto
  from conn_send_trace [OF r] obtain res where
    t1: "trace w1 = trace w @ [SendCall (client_id c) msg res]" and
    res: "res = Delivered \<longleftrightarrow> ok" by blast
  from Cons.prems r have "flush_queue msgs (c1, w1) = (c', w')" by simp
  from Cons.IH [OF this] conn_send_client_id [OF r] obtain es k where
    es: "trace w' = trace w1 @ es" "sends_of es = map (Pair (client_id c)) msgs"
      "deliveries es = take k (map (Pair (client_id c)) msgs)" "\<not> is_active c1 \<longrightarrow> k = 0"
    by auto
  let ?es = "SendCall (client_id c) msg res # es"
  have tr: "trace w' = trace w @ ?es" using t1 es(1) by simp
  have so: "sends_of ?es = map (Pair (client_id c)) (msg # msgs)" using es(2) by simp
  show ?case
  proof (cases ok)
    case True
    with res es(3) have "deliveries ?es = take (Suc k) (map (Pair (client_id c)) (msg # msgs))"
      by simp
    moreover from True conn_send_conn [OF r] have "is_active c" by auto
    ultimately show ?thesis using tr so by blast
  next
    case False
    with conn_send_conn [OF r] have "\<not> is_active c1" by auto
    with es(3,4) False res
    have "deliveries ?es = take 0 (map (Pair (client_id c)) (msg # msgs))" by simp
    with tr so show ?thesis by blast
  qed
qed

lemma run_append: "run (xs @ ys) mw = run ys (run xs mw)"
  by (induction xs arbitrary: mw) simp_all

lemma queued_enqueue:
  "queued (enqueue cid msg m) cid = queued m cid @ [msg]"
  by (simp add: queued_def enqueue_def Let_def update_conv' split: option.splits)

lemma run_offline_sends:
  "\<not> has_connection m cid \<Longrightarrow>
   \<exists>m'. run (map (SendPersonal cid) msgs) (m, w) = (m', w) \<and>
        active_connections m' = active_connections m \<and> stats m' = stats m \<and>
        queued m' cid = queued m cid @ msgs"
proof (induction msgs arbitrary: m)
  case Nil
  then show ?case by simp
next
  case (Cons msg msgs)
  let ?m1 = "enqueue cid msg m"
  from Cons.prems have s: "send_personal_message cid msg (m, w) = (?m1, w)"
    by (simp add: has_connection_def)
  from Cons.prems have "\<not> has_connection ?m1 cid" by (simp add: has_connection_def)
  from Cons.IH [OF this] s show ?case by (auto simp: queued_enqueue)
qed

lemma connect_flushes:
  assumes "assigned_id cid_opt uuid = cid"
  shows "\<exists>es k. trace (snd (snd (connect ws cid_opt uuid tnow True (m, w)))) = trace w @ es \<and>
      sends_of es = map (Pair cid) (welcome_message cid tnow # queued m cid) \<and>
      deliveries es = take k (map (Pair cid) (welcome_message cid tnow # queued m cid)) \<and>
      map_of (message_queue (fst (snd (connect ws cid_opt uuid tnow True (m, w))))) cid = None \<and>
      has_connection (fst (snd (connect ws cid_opt uuid tnow True (m, w)))) cid"
proof -
  let ?c = "ConnectionManager_init ws cid tnow"
  let ?wm = "welcome_message cid tnow"
  have cid0: "client_id ?c = cid" by (simp add: ConnectionManager_init_def)
  obtain ok c1 w1 where r: "conn_send_personal_message ?c ?wm w = (ok, c1, w1)"
    by (cases "conn_send_personal_message ?c ?wm w") auto
  from conn_send_trace [OF r] cid0 obtain res where
    t1: "trace w1 = trace w @ [SendCall cid ?wm res]" and res: "res = Delivered \<longleftrightarrow> ok"
    by auto
  from conn_send_client_id [OF r] cid0 have cid1: "client_id c1 = cid" by simp
  show ?thesis
  proof (cases "map_of (message_queue m) cid")
    case None
    have "deliveries [SendCall cid ?wm res] = take (if ok then 1 else 0) [(cid, ?wm)]"
      using res by simp
    with None r t1 assms show ?thesis
      by (auto simp: Let_def queued_def has_connection_def update_conv'
          intro!: exI [of _ "[SendCall cid ?wm res]"] exI [of _ "if ok then 1 else 0"])
  next
    case (Some msgs)
    obtain c2 w2 where f: "flush_queue msgs (c1, w1) = (c2, w2)"
      by (cases "flush_queue msgs (c1, w1)") auto
    from flush_queue_trace [OF f] cid1 obtain es k where
      es: "trace w2 = trace w1 @ es" "sends_of es = map (Pair cid) msgs"
        "deliveries es = take k (map (Pair cid) msgs)" "\<not> is_active c1 \<longrightarrow> k = 0"
      by auto
    let ?es = "SendCall cid ?wm res # es"
    from conn_send_conn [OF r] have act: "ok \<or> \<not> is_active c1" by auto
    have d: "deliveries ?es = take (if ok then Suc k else 0) (map (Pair cid) (?wm # msgs))"
      using res es(3,4) act by auto
    have t: "trace w2 = trace w @ ?es" using t1 es(1) by simp
    have s: "sends_of ?es = map (Pair cid) (?wm # msgs)" using es(2) by simp
    from Some r f assms t s d show ?thesis
      by (auto simp: Let_def queued_def has_connection_def update_conv' delete_conv'
          intro!: exI [of _ ?es] exI [of _ "if ok then Suc k else 0"])
  qed
qed

text \<open>
  Claim C5, as amended. For every client id that has no connection, any number of
  \<^verbatim>\<open>send_personal_message\<close> calls for it followed by a \<^verbatim>\<open>connect\<close> that returns and
  assigns that client id (the id was supplied and is not the empty string, or it is
  the generated one) hands to the new connection's send primitive, in this order, the
  welcome message, the messages queued before, and the messages of the calls in call
  order; the ones delivered are an initial part of that sequence; afterwards the
  queue has no entry for the client id and the client has a connection.
\<close>

theorem offline_messages_flushed_in_call_order:
  assumes "\<not> has_connection m cid" and "assigned_id cid_opt uuid = cid"
  shows "\<exists>es k.
      trace (snd (run (map (SendPersonal cid) msgs @ [Connect ws cid_opt uuid tnow True]) (m, w)))
        = trace w @ es \<and>
      sends_of es = map (Pair cid) (welcome_message cid tnow # queued m cid @ msgs) \<and>
      deliveries es = take k (map (Pair cid) (welcome_message cid tnow # queued m cid @ msgs)) \<and>
      map_of (message_queue
        (fst (run (map (SendPersonal cid) msgs @ [Connect ws cid_opt uuid tnow True]) (m, w)))) cid
        = None \<and>
      has_connection
        (fst (run (map (SendPersonal cid) msgs @ [Connect ws cid_opt uuid tnow True]) (m, w))) cid"
proof -
  from run_offline_sends [OF assms(1), of msgs w] obtain m' where
    m': "run (map (SendPersonal cid) msgs) (m, w) = (m', w)" "queued m' cid = queued m cid @ msgs"
    by blast
  from connect_flushes [OF assms(2), of ws tnow m' w] m' show ?thesis
    by (simp add: run_append)
qed

theorem offline_messages_flushed_in_call_order_witness:
  "\<not> has_connection demo_manager ''carol'' \<and>
   assigned_id (Some ''carol'') ''uuid-3'' = ''carol'' \<and>
   sends_of (trace (snd (run carol_offline (demo_manager, calm_world)))) =
     [(''carol'', welcome_message ''carol'' ''t5''), (''carol'', [(''type'', JStr ''hello'')]),
      (''carol'', numbered 1), (''carol'', numbered 2)] \<and>
   deliveries (trace (snd (run carol_offline (demo_manager, calm_world)))) =
     sends_of (trace (snd (run carol_offline (demo_manager, calm_world)))) \<and>
   map_of (message_queue (fst (run carol_offline (demo_manager, calm_world)))) ''carol'' = None"
proof -
  have h1: "\<not> has_connection demo_manager ''carol''"
    by (simp add: has_connection_def demo_manager_def)
  have h2: "assigned_id (Some ''carol'') ''uuid-3'' = ''carol''"
    by (simp add: assigned_id_def)
  have q: "queued demo_manager ''carol'' = [[(''type'', JStr ''hello'')]]"
    by (simp add: queued_def demo_manager_def)
  have d: "deliveries (trace (snd (run carol_offline (demo_manager, calm_world)))) =
     [(''carol'', welcome_message ''carol'' ''t5''), (''carol'', [(''type'', JStr ''hello'')]),
      (''carol'', numbered 1), (''carol'', numbered 2)]"
    by (simp add: carol_offline_def demo_manager_def calm_world_def enqueue_def Let_def
        assigned_id_def ConnectionManager_init_def conn_send_personal_message_def observe_def
        touch_def record_event_def)
  from offline_messages_flushed_in_call_order
    [OF h1 h2, of "[numbered 1, numbered 2]" 3 "''t5''" calm_world]
  show ?thesis using h1 h2 q d
    by (auto simp: carol_offline_def calm_world_def)
qed

text \<open>
  Claim C5 as stated fails for the empty client id: \<^verbatim>\<open>connect\<close> takes an empty id
  for a missing one (line 109) and assigns a generated id, so the message queued
  under the empty id is handed to no connection and stays in the queue.
\<close>

theorem empty_client_id_is_never_flushed:
  "\<not> has_connection WebSocketManager_init [] \<and>
   sends_of (trace (snd (run [SendPersonal [] (numbered 1), Connect 1 (Some []) ''uuid-1'' ''t0'' True]
       (WebSocketManager_init, calm_world)))) =
     [(''uuid-1'', welcome_message ''uuid-1'' ''t0'')] \<and>
   map_of (message_queue (fst (run [SendPersonal [] (numbered 1), Connect 1 (Some []) ''uuid-1'' ''t0'' True]
       (WebSocketManager_init, calm_world)))) [] = Some [numbered 1]"
  by (simp add: WebSocketManager_init_def calm_world_def has_connection_def enqueue_def Let_def
      assigned_id_def ConnectionManager_init_def conn_send_personal_message_def observe_def
      touch_def record_event_def)

section \<open>Broadcast to a topic\<close>

lemma failed_send_append: "failed_send (es @ fs) c \<longleftrightarrow> failed_send es c \<or> failed_send fs c"
  by (induction es c rule: failed_send.induct) auto

lemma failed_send_sends_of: "failed_send es c \<Longrightarrow> c \<in> fst ` set (sends_of es)"
  by (induction es c rule: failed_send.induct) auto

lemma keys_match_lookup:
  "keys_match m \<Longrightarrow> map_of (active_connections m) cid = Some c \<Longrightarrow> client_id c = cid"
  by (auto simp: keys_match_def list_all_iff dest: map_of_SomeD)

lemma keys_match_store:
  "keys_match m \<Longrightarrow> client_id c = cid \<Longrightarrow> keys_match (store_connection cid c m)"
  using entries_store [of m "\<lambda>k c. client_id c = k" cid c]
  by (simp add: keys_match_def list_all_iff)

lemma keys_match_count [simp]:
  "keys_match (count_sent m) = keys_match m" "keys_match (count_failed m) = keys_match m"
  by (simp_all add: keys_match_def)

lemma active_in_store:
  "active_in (store_connection cid c m) x = (if x = cid then is_active c else active_in m x)"
  by (simp add: active_in_def update_conv')

lemma active_in_count [simp]:
  "active_in (count_sent m) = active_in m" "active_in (count_failed m) = active_in m"
  by (simp_all add: active_in_def fun_eq_iff)

lemma has_connection_count [simp]:
  "has_connection (count_sent m) = has_connection m"
  "has_connection (count_failed m) = has_connection m"
  by (simp_all add: has_connection_def fun_eq_iff)

lemma active_in_has_connection: "active_in m c \<Longrightarrow> has_connection m c"
  by (simp add: active_in_def has_connection_def split: option.splits)

text \<open>One subscriber of the snapshot.\<close>

lemma topic_step_spec:
  assumes km: "keys_match m" and r: "topic_step msg c (m, w, d) = (m1, w1, d1)"
  shows "\<exists>es. trace w1 = trace w @ es \<and>
      sends_of es = (if active_in m c then [(c, msg)] else []) \<and>
      (\<forall>x. failed_send es x \<longrightarrow> x = c) \<and>
      (\<forall>x. x \<in> set d1 \<longleftrightarrow>
           x \<in> set d \<or> (x = c \<and> has_connection m c \<and> (\<not> active_in m c \<or> failed_send es c))) \<and>
      (\<forall>x. x \<noteq> c \<longrightarrow> active_in m1 x = active_in m x) \<and>
      keys_match m1 \<and> same_frame m m1"
proof (cases "map_of (active_connections m) c")
  case None
  with r km show ?thesis
    by (auto simp: topic_step_def active_in_def has_connection_def intro!: exI [of _ "[]"])
next
  case (Some k)
  note cid = keys_match_lookup [OF km Some]
  show ?thesis
  proof (cases "is_active k")
    case False
    with Some r km show ?thesis
      by (auto simp: topic_step_def send_step_def active_in_def has_connection_def
          intro!: exI [of _ "[]"])
  next
    case True
    obtain ok k' w' where s: "conn_send_personal_message k msg w = (ok, k', w')"
      by (cases "conn_send_personal_message k msg w") auto
    from conn_send_trace [OF s] cid obtain res where
      t: "trace w' = trace w @ [SendCall c msg res]" and res: "res = Delivered \<longleftrightarrow> ok"
      by auto
    from conn_send_client_id [OF s] cid have "client_id k' = c" by simp
    from keys_match_store [OF km this] have km': "keys_match (store_connection c k' m)" .
    from same_frame_store [OF map_of_keys [OF Some]]
    have sf: "same_frame m (store_connection c k' m)" .
    from Some True r s t res km' sf show ?thesis
      by (cases ok)
         (auto simp: topic_step_def send_step_def active_in_def has_connection_def update_conv'
          intro!: exI [of _ "[SendCall c msg res]"])
  qed
qed

text \<open>The whole fan-out pass over the snapshot.\<close>

lemma fan_out_spec:
  assumes "distinct cids" and "keys_match m"
    and "fan_out msg cids (m, w, d) = (m1, w1, d1)"
  shows "\<exists>es. trace w1 = trace w @ es \<and>
      sends_of es = map (\<lambda>c. (c, msg)) (filter (active_in m) cids) \<and>
      (\<forall>x. x \<in> set d1 \<longleftrightarrow>
           x \<in> set d \<or>
           (x \<in> set cids \<and> has_connection m x \<and> (\<not> active_in m x \<or> failed_send es x))) \<and>
      same_frame m m1"
  using assms
proof (induction cids arbitrary: m w d)
  case Nil
  then show ?case by (auto intro!: exI [of _ "[]"])
next
  case (Cons c cids)
  obtain ma wa da where st: "topic_step msg c (m, w, d) = (ma, wa, da)"
    by (cases "topic_step msg c (m, w, d)") auto
  from topic_step_spec [OF Cons.prems(2) st] obtain e where
    e: "trace wa = trace w @ e" "sends_of e = (if active_in m c then [(c, msg)] else [])"
      "\<forall>x. failed_send e x \<longrightarrow> x = c"
      "\<forall>x. x \<in> set da \<longleftrightarrow>
           x \<in> set d \<or> (x = c \<and> has_connection m c \<and> (\<not> active_in m c \<or> failed_send e c))"
      "\<forall>x. x \<noteq> c \<longrightarrow> active_in ma x = active_in m x"
      "keys_match ma" "same_frame m ma"
    by blast
  from Cons.prems(3) st have "fan_out msg cids (ma, wa, da) = (m1, w1, d1)" by simp
  from Cons.IH [OF _ e(6) this] Cons.prems(1) obtain es where
    es: "trace w1 = trace wa @ es"
      "sends_of es = map (\<lambda>c. (c, msg)) (filter (active_in ma) cids)"
      "\<forall>x. x \<in> set d1 \<longleftrightarrow>
           x \<in> set da \<or>
           (x \<in> set cids \<and> has_connection ma x \<and> (\<not> active_in ma x \<or> failed_send es x))"
      "same_frame ma m1"
    by auto
  from Cons.prems(1) e(5) have filt: "filter (active_in ma) cids = filter (active_in m) cids"
    by (intro filter_cong) auto
  have hc: "has_connection ma x = has_connection m x" for x
    by (rule has_connection_same_frame [OF e(7)])
  have not_c: "\<not> failed_send es c"
  proof
    assume "failed_send es c"
    from failed_send_sends_of [OF this] es(2) Cons.prems(1) show False by auto
  qed
  have t: "trace w1 = trace w @ (e @ es)" using e(1) es(1) by simp
  have s: "sends_of (e @ es) = map (\<lambda>c. (c, msg)) (filter (active_in m) (c # cids))"
    using e(2) es(2) filt by (simp add: sends_of_append)
  have dd: "x \<in> set d1 \<longleftrightarrow>
           x \<in> set d \<or>
           (x \<in> set (c # cids) \<and> has_connection m x \<and>
             (\<not> active_in m x \<or> failed_send (e @ es) x))" for x
  proof (cases "x = c")
    case True
    with es(3) e(4) not_c Cons.prems(1) show ?thesis
      by (auto simp: failed_send_append)
  next
    case False
    with es(3) e(3,4,5) hc show ?thesis
      by (auto simp: failed_send_append)
  qed
  from t s dd same_frame_trans [OF e(7) es(4)] show ?case by blast
qed

lemma topic_step_world:
  assumes km: "keys_match m" and r: "topic_step msg c (m, w, d) = (m1, w1, d1)"
  shows "chan w1 = chan w \<and>
      attempts w1 = attempts w + (if active_in m c then 1 else 0) \<and>
      trace w1 = trace w @
        (if active_in m c then [SendCall c msg (transport_result (chan w (attempts w)))] else [])"
proof (cases "map_of (active_connections m) c")
  case None
  with r show ?thesis by (auto simp: topic_step_def active_in_def)
next
  case (Some k)
  note cid = keys_match_lookup [OF km Some]
  show ?thesis
  proof (cases "is_active k")
    case False
    with Some r show ?thesis by (auto simp: topic_step_def send_step_def active_in_def)
  next
    case True
    obtain ok k' w' where s: "conn_send_personal_message k msg w = (ok, k', w')"
      by (cases "conn_send_personal_message k msg w") auto
    from conn_send_active [OF True, of msg w] s cid
    have w': "w' = touch (SendCall c msg (transport_result (observe w))) w" by simp
    from Some True r s have "w1 = w'"
      by (cases ok) (auto simp: topic_step_def send_step_def)
    with w' Some True show ?thesis
      by (simp add: touch_def observe_def active_in_def)
  qed
qed

lemma fan_out_world:
  assumes "distinct cids" and "keys_match m"
    and "fan_out msg cids (m, w, d) = (m1, w1, d1)"
  shows "chan w1 = chan w \<and>
      attempts w1 = attempts w + length (filter (active_in m) cids) \<and>
      trace w1 = trace w @
        transport_calls (chan w) (attempts w) msg (filter (active_in m) cids)"
  using assms
proof (induction cids arbitrary: m w d)
  case Nil
  then show ?case by simp
next
  case (Cons c cids)
  obtain ma wa da where st: "topic_step msg c (m, w, d) = (ma, wa, da)"
    by (cases "topic_step msg c (m, w, d)") auto
  from topic_step_spec [OF Cons.prems(2) st] have
    same: "\<forall>x. x \<noteq> c \<longrightarrow> active_in ma x = active_in m x" and km: "keys_match ma"
    by blast+
  note one = topic_step_world [OF Cons.prems(2) st]
  from Cons.prems(3) st have "fan_out msg cids (ma, wa, da) = (m1, w1, d1)" by simp
  from Cons.IH [OF _ km this] Cons.prems(1) have rest:
    "chan w1 = chan wa"
    "attempts w1 = attempts wa + length (filter (active_in ma) cids)"
    "trace w1 = trace wa @ transport_calls (chan wa) (attempts wa) msg (filter (active_in ma) cids)"
    by auto
  from Cons.prems(1) same have filt: "filter (active_in ma) cids = filter (active_in m) cids"
    by (intro filter_cong) auto
  from one rest filt show ?case by simp
qed

lemma has_connection_disconnect_each:
  "has_connection (disconnect_each cs m) c \<longleftrightarrow> has_connection m c \<and> c \<notin> set cs"
  by (induction cs arbitrary: m) (auto simp: has_connection_disconnect)

lemma in_topic_index_disconnect_each:
  "in_topic_index (disconnect_each cs m) c t \<longleftrightarrow>
     in_topic_index m c t \<and> \<not> (c \<in> set cs \<and> has_connection m c)"
  by (induction cs arbitrary: m)
     (auto simp: in_topic_index_disconnect has_connection_disconnect)

text \<open>
  Claim C4. One call of \<^verbatim>\<open>broadcast_to_topic\<close> for a topic with subscribers, in a
  state where every connection is stored under its own client id: the loop runs over
  the list of subscribers taken before the first send, and the pass changes neither
  the topic index nor the keys of the connections (\<open>same_frame\<close>); the disconnects
  are applied to the state after the whole pass. The calls of the send primitive that
  the pass makes are exactly one per subscriber of the snapshot whose connection has
  its flag up, in the order of the snapshot, each with the stamped message, each
  reaching the transport (none is skipped) and each with the result the transport
  gives to its own attempt, whatever the attempts before it gave. When the call
  returns, every subscriber with a connection whose flag was down or whose send failed
  has no connection and is in no topic's subscriber set, and every other subscriber
  with a connection still has it and is still subscribed.
\<close>

theorem broadcast_to_topic_isolates_failures:
  assumes "map_of (subscriptions m) topic = Some members" and "distinct members"
    and "keys_match m"
  shows "\<exists>m1 w1 disconnected_clients es.
      fan_out (stamp tnow msg) members (m, w, []) = (m1, w1, disconnected_clients) \<and>
      same_frame m m1 \<and>
      broadcast_to_topic topic msg tnow (m, w) = (disconnect_each disconnected_clients m1, w1) \<and>
      trace w1 = trace w @ es \<and>
      es = transport_calls (chan w) (attempts w) (stamp tnow msg) (filter (active_in m) members) \<and>
      attempts w1 = attempts w + length (filter (active_in m) members) \<and>
      sends_of es = map (\<lambda>c. (c, stamp tnow msg)) (filter (active_in m) members) \<and>
      (\<forall>c \<in> set members. has_connection m c \<longrightarrow>
         (if \<not> active_in m c \<or> failed_send es c
          then \<not> has_connection (fst (broadcast_to_topic topic msg tnow (m, w))) c \<and>
               (\<forall>t. \<not> in_topic_index (fst (broadcast_to_topic topic msg tnow (m, w))) c t)
          else has_connection (fst (broadcast_to_topic topic msg tnow (m, w))) c \<and>
               in_topic_index (fst (broadcast_to_topic topic msg tnow (m, w))) c topic))"
proof -
  obtain m1 w1 d1 where f: "fan_out (stamp tnow msg) members (m, w, []) = (m1, w1, d1)"
    by (cases "fan_out (stamp tnow msg) members (m, w, [])") auto
  from fan_out_spec [OF assms(2,3) f] obtain es where
    es: "trace w1 = trace w @ es"
      "sends_of es = map (\<lambda>c. (c, stamp tnow msg)) (filter (active_in m) members)"
      "\<forall>x. x \<in> set d1 \<longleftrightarrow>
           x \<in> set members \<and> has_connection m x \<and> (\<not> active_in m x \<or> failed_send es x)"
      "same_frame m m1"
    by auto
  from fan_out_world [OF assms(2,3) f] es(1) have world:
    "es = transport_calls (chan w) (attempts w) (stamp tnow msg) (filter (active_in m) members)"
    "attempts w1 = attempts w + length (filter (active_in m) members)"
    by simp_all
  have b: "broadcast_to_topic topic msg tnow (m, w) = (disconnect_each d1 m1, w1)"
    using assms(1) f by simp
  have "if \<not> active_in m c \<or> failed_send es c
        then \<not> has_connection (disconnect_each d1 m1) c \<and>
             (\<forall>t. \<not> in_topic_index (disconnect_each d1 m1) c t)
        else has_connection (disconnect_each d1 m1) c \<and>
             in_topic_index (disconnect_each d1 m1) c topic"
    if c: "c \<in> set members" "has_connection m c" for c
  proof -
    from c assms(1) have "in_topic_index m c topic" by (simp add: in_topic_index_def)
    with c es(3) show ?thesis
      by (simp add: has_connection_disconnect_each in_topic_index_disconnect_each
          has_connection_same_frame [OF es(4)] in_topic_index_same_frame [OF es(4)])
  qed
  with f es b world(2) world(1) [symmetric] show ?thesis
    by (simp del: broadcast_to_topic.simps)
qed

theorem broadcast_to_topic_isolates_failures_witness:
  "map_of (subscriptions room_manager) ''news'' = Some [''ann'', ''bob'', ''cat'', ''dan''] \<and>
   distinct [''ann'', ''bob'', ''cat'', ''dan''] \<and> keys_match room_manager \<and>
   trace (snd (broadcast_to_topic ''news'' [] ''t9'' (room_manager, fail_once))) =
     [SendCall ''ann'' (stamp ''t9'' []) SendFailed, SendCall ''cat'' (stamp ''t9'' []) Delivered] \<and>
   attempts (snd (broadcast_to_topic ''news'' [] ''t9'' (room_manager, fail_once))) = 2 \<and>
   sends_of (trace (snd (broadcast_to_topic ''news'' [] ''t9'' (room_manager, fail_once)))) =
     [(''ann'', stamp ''t9'' []), (''cat'', stamp ''t9'' [])] \<and>
   deliveries (trace (snd (broadcast_to_topic ''news'' [] ''t9'' (room_manager, fail_once)))) =
     [(''cat'', stamp ''t9'' [])] \<and>
   \<not> has_connection (fst (broadcast_to_topic ''news'' [] ''t9'' (room_manager, fail_once))) ''ann'' \<and>
   \<not> in_topic_index (fst (broadcast_to_topic ''news'' [] ''t9'' (room_manager, fail_once)))
       ''ann'' ''signals'' \<and>
   \<not> has_connection (fst (broadcast_to_topic ''news'' [] ''t9'' (room_manager, fail_once))) ''bob'' \<and>
   has_connection (fst (broadcast_to_topic ''news'' [] ''t9'' (room_manager, fail_once))) ''cat'' \<and>
   in_topic_index (fst (broadcast_to_topic ''news'' [] ''t9'' (room_manager, fail_once)))
       ''cat'' ''news''"
proof -
  have h1: "map_of (subscriptions room_manager) ''news'' = Some [''ann'', ''bob'', ''cat'', ''dan'']"
    by (simp add: room_manager_def)
  have h2: "distinct [''ann'', ''bob'', ''cat'', ''dan'']" by simp
  have h3: "keys_match room_manager"
    by (simp add: keys_match_def room_manager_def demo_connection_def ConnectionManager_init_def)
  have ev: "broadcast_to_topic ''news'' [] ''t9'' (room_manager, fail_once) =
     (disconnect ''bob'' (disconnect ''ann''
        (count_sent (count_failed
           (store_connection ''ann'' ((demo_connection ''ann'' True)\<lparr>is_active := False\<rparr>)
              room_manager)))),
      fail_once\<lparr>attempts := 2,
        trace := [SendCall ''ann'' (stamp ''t9'' []) SendFailed,
                  SendCall ''cat'' (stamp ''t9'' []) Delivered]\<rparr>)"
    by (simp add: room_manager_def fail_once_def demo_connection_def ConnectionManager_init_def
        topic_step_def send_step_def conn_send_personal_message_def observe_def touch_def
        store_connection_def count_sent_def count_failed_def)
  have state: "\<not> has_connection (fst (broadcast_to_topic ''news'' [] ''t9'' (room_manager, fail_once))) ''ann'' \<and>
   \<not> in_topic_index (fst (broadcast_to_topic ''news'' [] ''t9'' (room_manager, fail_once)))
       ''ann'' ''signals'' \<and>
   \<not> has_connection (fst (broadcast_to_topic ''news'' [] ''t9'' (room_manager, fail_once))) ''bob'' \<and>
   has_connection (fst (broadcast_to_topic ''news'' [] ''t9'' (room_manager, fail_once))) ''cat'' \<and>
   in_topic_index (fst (broadcast_to_topic ''news'' [] ''t9'' (room_manager, fail_once)))
       ''cat'' ''news''"
    unfolding ev fst_conv
    by (simp add: has_connection_disconnect in_topic_index_disconnect)
       (simp add: has_connection_def in_topic_index_def room_manager_def store_connection_def
        count_sent_def count_failed_def)
  have tr: "trace (snd (broadcast_to_topic ''news'' [] ''t9'' (room_manager, fail_once))) =
     [SendCall ''ann'' (stamp ''t9'' []) SendFailed, SendCall ''cat'' (stamp ''t9'' []) Delivered] \<and>
   attempts (snd (broadcast_to_topic ''news'' [] ''t9'' (room_manager, fail_once))) = 2 \<and>
   sends_of (trace (snd (broadcast_to_topic ''news'' [] ''t9'' (room_manager, fail_once)))) =
     [(''ann'', stamp ''t9'' []), (''cat'', stamp ''t9'' [])] \<and>
   deliveries (trace (snd (broadcast_to_topic ''news'' [] ''t9'' (room_manager, fail_once)))) =
     [(''cat'', stamp ''t9'' [])]"
    unfolding ev snd_conv by simp
  have all: ?thesis using h1 h2 h3 state tr by blast
  from broadcast_to_topic_isolates_failures [OF h1 h2 h3, of "''t9''" "[]" fail_once]
  show ?thesis by - (rule all)
qed

section \<open>The representation is maintained\<close>

text \<open>
  The hypotheses on the state used above hold in every state the manager can reach:
  the keys of \<^verbatim>\<open>active_connections\<close> are distinct, every connection is stored under
  its own client id, and no subscriber list repeats a client id.
\<close>

lemma keys_match_step: "keys_match (fst mw) \<Longrightarrow> keys_match (fst (step x mw))"
proof -
  assume "keys_match (fst mw)"
  then have inv: "\<forall>(k, c) \<in> set (active_connections (fst mw)). client_id c = k"
    by (simp add: keys_match_def list_all_iff)
  have "\<forall>(k, c) \<in> set (active_connections (fst (step x mw))). client_id c = k"
    by (rule entries_step [of "\<lambda>k c. client_id c = k", OF _ _ _ inv])
       (simp_all add: ConnectionManager_init_def)
  then show ?thesis by (simp add: keys_match_def list_all_iff)
qed

lemma reachable_keys_match: "keys_match (fst (run xs (WebSocketManager_init, w)))"
proof -
  have "keys_match (fst mw) \<Longrightarrow> keys_match (fst (run xs mw))" for mw
    by (induction xs arbitrary: mw) (simp_all add: keys_match_step)
  then show ?thesis by (simp add: keys_match_def WebSocketManager_init_def)
qed

lemma members_distinct_same_frame:
  "same_frame m m' \<Longrightarrow> members_distinct m \<Longrightarrow> members_distinct m'"
  unfolding members_distinct_def same_frame_def by simp

lemma distinct_without: "pred_option distinct entry \<Longrightarrow> pred_option distinct (without cid entry)"
  by (cases entry) (simp_all add: without_def distinct_removeAll)

lemma members_distinct_disconnect: "members_distinct m \<Longrightarrow> members_distinct (disconnect cid m)"
  unfolding members_distinct_def map_of_subscriptions_disconnect
  by (simp add: distinct_without)

lemma members_distinct_disconnect_each:
  "members_distinct m \<Longrightarrow> members_distinct (disconnect_each cids m)"
  by (induction cids arbitrary: m) (simp_all add: members_distinct_disconnect)

lemma map_of_add_subscriber_other:
  "t \<noteq> topic \<Longrightarrow> map_of (add_subscriber cid topic subs) t = map_of subs t"
  by (simp add: add_subscriber_def Let_def update_conv' split: option.splits)

lemma distinct_set_add: "distinct members \<Longrightarrow> distinct (set_add cid members)"
  by (simp add: set_add_def)

lemma members_distinct_subscribe:
  assumes "members_distinct m"
  shows "members_distinct (fst (subscribe cid topic tnow (m, w)))"
  unfolding members_distinct_def subscriptions_subscribe
proof
  fix t
  from assms have old: "pred_option distinct (map_of (subscriptions m) t)"
    unfolding members_distinct_def by blast
  show "pred_option distinct (map_of (add_subscriber cid topic (subscriptions m)) t)"
  proof (cases "t = topic")
    case True
    with old show ?thesis
      by (cases "map_of (subscriptions m) topic")
         (simp_all add: map_of_add_subscriber distinct_set_add)
  next
    case False
    with old show ?thesis by (simp add: map_of_add_subscriber_other)
  qed
qed

lemma map_of_subscriptions_unsubscribe:
  "map_of (subscriptions (unsubscribe cid topic m)) t =
     (if t = topic
      then (case map_of (subscriptions m) topic of
              None \<Rightarrow> None
            | Some members \<Rightarrow>
                if removeAll cid members = [] then None else Some (removeAll cid members))
      else map_of (subscriptions m) t)"
  by (simp add: unsubscribe_def set_discard_def update_conv' delete_conv' split: option.splits)

lemma members_distinct_unsubscribe:
  assumes "members_distinct m"
  shows "members_distinct (unsubscribe cid topic m)"
  unfolding members_distinct_def map_of_subscriptions_unsubscribe
proof
  fix t
  from assms have "pred_option distinct (map_of (subscriptions m) t)"
    unfolding members_distinct_def by blast
  then show "pred_option distinct
     (if t = topic
      then (case map_of (subscriptions m) topic of
              None \<Rightarrow> None
            | Some members \<Rightarrow>
                if removeAll cid members = [] then None else Some (removeAll cid members))
      else map_of (subscriptions m) t)"
    by (cases "map_of (subscriptions m) topic") (auto simp: distinct_removeAll)
qed

lemma members_distinct_after_pass:
  "same_frame m m1 \<Longrightarrow> members_distinct m \<Longrightarrow> members_distinct (disconnect_each d m1)"
  by (rule members_distinct_disconnect_each [OF members_distinct_same_frame])

lemma members_distinct_simps:
  "members_distinct (store_connection cid c m) = members_distinct m"
  "members_distinct (count_sent m) = members_distinct m"
  "members_distinct (count_failed m) = members_distinct m"
  "members_distinct (enqueue cid msg m) = members_distinct m"
  "members_distinct (cleanup_pass m) = members_distinct m"
  "members_distinct (fst (snd (connect ws cid_opt uuid tnow accept_ok (m, w)))) = members_distinct m"
  unfolding members_distinct_def subscriptions_connect by simp_all

lemma members_distinct_step: "members_distinct (fst mw) \<Longrightarrow> members_distinct (fst (step x mw))"
proof (cases mw)
  case (Pair m w)
  assume "members_distinct (fst mw)"
  with Pair have md: "members_distinct m" by simp
  show ?thesis
  proof (cases x)
    case (Connect ws cid_opt uuid tnow accept_ok)
    with Pair md show ?thesis
      by (simp add: members_distinct_simps del: connect.simps)
  next
    case (Disconnect cid)
    with Pair members_distinct_disconnect [OF md] show ?thesis by simp
  next
    case (Subscribe cid topic tnow)
    with Pair members_distinct_subscribe [OF md] show ?thesis by simp
  next
    case (Unsubscribe cid topic)
    with Pair members_distinct_unsubscribe [OF md] show ?thesis by simp
  next
    case (SendPersonal cid msg)
    show ?thesis
    proof (cases "map_of (active_connections m) cid")
      case None
      with Pair SendPersonal md show ?thesis by (simp add: members_distinct_simps)
    next
      case (Some c)
      have "members_distinct (store_connection cid c' m)" for c'
        using md by (simp add: members_distinct_simps)
      then have "members_distinct (count_sent (store_connection cid c' m))"
        "members_distinct (count_failed (disconnect cid (store_connection cid c' m)))" for c'
        using members_distinct_disconnect [of "store_connection cid c' m" cid]
        by (simp_all add: members_distinct_simps)
      with Pair SendPersonal Some members_distinct_disconnect [OF md, of cid] show ?thesis
        by (simp split: prod.splits)
    qed
  next
    case (BroadcastTopic topic msg tnow)
    show ?thesis
    proof (cases "map_of (subscriptions m) topic")
      case None
      with Pair BroadcastTopic md show ?thesis by simp
    next
      case (Some members)
      obtain m1 w1 d where r: "fan_out (stamp tnow msg) members (m, w, []) = (m1, w1, d)"
        by (cases "fan_out (stamp tnow msg) members (m, w, [])") auto
      from same_frame_fan_out [of "(m, w, [])" "stamp tnow msg" members] r
      have "same_frame m m1" by simp
      from members_distinct_after_pass [OF this md] Pair BroadcastTopic Some r
      show ?thesis by simp
    qed
  next
    case (BroadcastAll msg tnow)
    obtain m1 w1 d where r: "fan_out_all (stamp tnow msg) (active_connections m) (m, w, []) = (m1, w1, d)"
      by (cases "fan_out_all (stamp tnow msg) (active_connections m) (m, w, [])") auto
    from same_frame_fan_out_all [of "active_connections m" "(m, w, [])" "stamp tnow msg"] r
    have "same_frame m m1" by simp
    from members_distinct_after_pass [OF this md] Pair BroadcastAll r show ?thesis by simp
  next
    case (HealthCheck tnow)
    obtain m1 w1 d where r: "ping_all tnow (active_connections m) (m, w, []) = (m1, w1, d)"
      by (cases "ping_all tnow (active_connections m) (m, w, [])") auto
    from same_frame_ping_all [of "active_connections m" "(m, w, [])" tnow] r
    have "same_frame m m1" by simp
    from members_distinct_after_pass [OF this md] Pair HealthCheck r show ?thesis by simp
  next
    case Cleanup
    with Pair md show ?thesis by (simp add: members_distinct_simps)
  qed
qed

lemma reachable_members_distinct:
  assumes "map_of (subscriptions (fst (run xs (WebSocketManager_init, w)))) t = Some members"
  shows "distinct members"
proof -
  have "members_distinct (fst mw) \<Longrightarrow> members_distinct (fst (run xs mw))" for mw
    by (induction xs arbitrary: mw) (simp_all add: members_distinct_step)
  from this [of "(WebSocketManager_init, w)"]
  have "members_distinct (fst (run xs (WebSocketManager_init, w)))"
    by (simp add: members_distinct_def WebSocketManager_init_def)
  then have "pred_option distinct (map_of (subscriptions (fst (run xs (WebSocketManager_init, w)))) t)"
    unfolding members_distinct_def by blast
  with assms show ?thesis by simp
qed

lemma keys_distinct_step:
  "distinct (map fst (active_connections (fst mw))) \<Longrightarrow>
   distinct (map fst (active_connections (fst (step x mw))))"
proof (cases mw)
  case (Pair m w)
  assume "distinct (map fst (active_connections (fst mw)))"
  with Pair have dk: "distinct (map fst (active_connections m))" by simp
  have dd: "distinct (map fst (active_connections (disconnect cid m')))"
    if "distinct (map fst (active_connections m'))" for cid m'
    using that by (simp add: disconnect_def Let_def distinct_delete)
  have de: "distinct (map fst (active_connections (disconnect_each cids m')))"
    if "distinct (map fst (active_connections m'))" for cids m'
    using that by (induction cids arbitrary: m') (simp_all add: dd)
  have pass: "distinct (map fst (active_connections (disconnect_each d m1)))"
    if "same_frame m m1" for m1 d
    using that dk by (intro de) (simp add: same_frame_def)
  show ?thesis
  proof (cases x)
    case (Connect ws cid_opt uuid tnow accept_ok)
    with Pair dk show ?thesis
      by (simp add: Let_def distinct_update split: prod.splits option.splits)
  next
    case (Disconnect cid)
    with Pair dd [OF dk] show ?thesis by simp
  next
    case (Subscribe cid topic tnow)
    with Pair dk show ?thesis
      by (simp add: Let_def distinct_update split: prod.splits option.splits)
  next
    case (Unsubscribe cid topic)
    with Pair dk show ?thesis by simp
  next
    case (SendPersonal cid msg)
    have "distinct (map fst (active_connections (store_connection cid c' m)))" for c'
      using dk by (simp add: distinct_update)
    from this dd [OF this] dd [OF dk] Pair SendPersonal dk show ?thesis
      by (simp split: prod.splits option.splits)
  next
    case (BroadcastTopic topic msg tnow)
    show ?thesis
    proof (cases "map_of (subscriptions m) topic")
      case None
      with Pair BroadcastTopic dk show ?thesis by simp
    next
      case (Some members)
      obtain m1 w1 d where r: "fan_out (stamp tnow msg) members (m, w, []) = (m1, w1, d)"
        by (cases "fan_out (stamp tnow msg) members (m, w, [])") auto
      from same_frame_fan_out [of "(m, w, [])" "stamp tnow msg" members] r
      have "same_frame m m1" by simp
      from pass [OF this] Pair BroadcastTopic Some r show ?thesis by simp
    qed
  next
    case (BroadcastAll msg tnow)
    obtain m1 w1 d where r: "fan_out_all (stamp tnow msg) (active_connections m) (m, w, []) = (m1, w1, d)"
      by (cases "fan_out_all (stamp tnow msg) (active_connections m) (m, w, [])") auto
    from same_frame_fan_out_all [of "active_connections m" "(m, w, [])" "stamp tnow msg"] r
    have "same_frame m m1" by simp
    from pass [OF this] Pair BroadcastAll r show ?thesis by simp
  next
    case (HealthCheck tnow)
    obtain m1 w1 d where r: "ping_all tnow (active_connections m) (m, w, []) = (m1, w1, d)"
      by (cases "ping_all tnow (active_connections m) (m, w, [])") auto
    from same_frame_ping_all [of "active_connections m" "(m, w, [])" tnow] r
    have "same_frame m m1" by simp
    from pass [OF this] Pair HealthCheck r show ?thesis by simp
  next
    case Cleanup
    with Pair dk show ?thesis by simp
  qed
qed

lemma reachable_keys_distinct:
  "distinct (map fst (active_connections (fst (run xs (WebSocketManager_init, w)))))"
proof -
  have "distinct (map fst (active_connections (fst mw))) \<Longrightarrow>
        distinct (map fst (active_connections (fst (run xs mw))))" for mw
    by (induction xs arbitrary: mw) (simp_all add: keys_distinct_step)
  then show ?thesis by (simp add: WebSocketManager_init_def)
qed

end
